theory Spec2Isabelle
  imports
    Complex_Main
    "HOL-Library.Word"
    "HOL-Library.Signed_Division"
    "HOL-Library.Monad_Syntax"
begin

unbundle bit_operations_syntax

section \<open>Machine types, undefined behaviour and the byte store\<close>

text \<open>
  The C file \<^verbatim>\<open>psycopg_c/types/numutils.c\<close> formats 64-bit integers as decimal text.
  Fixed-width unsigned integers are words: arithmetic wraps, \<open>div\<close> and \<open>mod\<close> are the
  unsigned C operators, \<open>push_bit\<close> is \<^verbatim>\<open><<\<close> and \<open>drop_bit\<close> is \<^verbatim>\<open>>>\<close>. A signed 64-bit
  argument is the same word read through \<open>sint\<close>. Values of C type \<^verbatim>\<open>int\<close> (lengths, shift
  counts, bit positions) are \<open>int\<close>: they stay below \<open>64 * 1233\<close> in every run, far from
  the 32-bit limit.

  An operation whose behaviour C leaves undefined (a read outside a table, a shift by a
  negative count, the leading-zero count of 0) yields \<open>None\<close>; every function that can
  reach one returns an \<open>option\<close>.
\<close>

type_synonym uint8_t = "8 word"
type_synonym uint32_t = "32 word"
type_synonym uint64_t = "64 word"
type_synonym int64_t = "64 word"

text \<open>
  The build configuration of \<^verbatim>\<open>pg_config.h\<close>: whether \<^verbatim>\<open>HAVE__BUILTIN_CLZ\<close> is defined,
  and the two sizes. It selects one of the three bodies of \<^verbatim>\<open>pg_leftmost_one_pos64\<close> at
  compile time.
\<close>

record pg_config =
  HAVE__BUILTIN_CLZ :: bool
  SIZEOF_LONG :: nat
  SIZEOF_LONG_LONG :: nat

text \<open>Reading element \<open>i\<close> of a constant table; outside the table the read is undefined.\<close>

definition array_read :: "'a list \<Rightarrow> nat \<Rightarrow> 'a option" where
  "array_read xs i = (if i < length xs then Some (xs ! i) else None)"

text \<open>
  The caller's memory: a byte at every address, and the addresses stored to so far
  (most recent first). A pointer \<^verbatim>\<open>char *\<close> is an address; \<^verbatim>\<open>a + k\<close> is \<open>a + k\<close>.
  The functions below never read \<open>bytes\<close>; \<open>stores\<close> records each write they perform.
\<close>

record heap =
  bytes :: "int \<Rightarrow> char"
  stores :: "int list"

definition store :: "int \<Rightarrow> char \<Rightarrow> heap \<Rightarrow> heap" where
  "store p c h = h\<lparr>bytes := (bytes h)(p := c), stores := p # stores h\<rparr>"

text \<open>\<^verbatim>\<open>memcpy(dst, src + off, n)\<close> from a constant table \<open>src\<close> into the heap.\<close>

fun memcpy :: "int \<Rightarrow> char list \<Rightarrow> nat \<Rightarrow> nat \<Rightarrow> heap \<Rightarrow> heap option" where
  "memcpy dst src off 0 h = Some h"
| "memcpy dst src off (Suc n) h =
     do { c \<leftarrow> array_read src off;
          memcpy (dst + 1) src (off + 1) n (store dst c h) }"

section \<open>The constant tables\<close>

text \<open>\<^verbatim>\<open>pg_leftmost_one_pos[256]\<close>, lines 25-42.\<close>

definition pg_leftmost_one_pos :: "uint8_t list" where
  "pg_leftmost_one_pos =
     [0, 0, 1, 1, 2, 2, 2, 2, 3, 3, 3, 3, 3, 3, 3, 3,
      4, 4, 4, 4, 4, 4, 4, 4, 4, 4, 4, 4, 4, 4, 4, 4,
      5, 5, 5, 5, 5, 5, 5, 5, 5, 5, 5, 5, 5, 5, 5, 5,
      5, 5, 5, 5, 5, 5, 5, 5, 5, 5, 5, 5, 5, 5, 5, 5,
      6, 6, 6, 6, 6, 6, 6, 6, 6, 6, 6, 6, 6, 6, 6, 6,
      6, 6, 6, 6, 6, 6, 6, 6, 6, 6, 6, 6, 6, 6, 6, 6,
      6, 6, 6, 6, 6, 6, 6, 6, 6, 6, 6, 6, 6, 6, 6, 6,
      6, 6, 6, 6, 6, 6, 6, 6, 6, 6, 6, 6, 6, 6, 6, 6,
      7, 7, 7, 7, 7, 7, 7, 7, 7, 7, 7, 7, 7, 7, 7, 7,
      7, 7, 7, 7, 7, 7, 7, 7, 7, 7, 7, 7, 7, 7, 7, 7,
      7, 7, 7, 7, 7, 7, 7, 7, 7, 7, 7, 7, 7, 7, 7, 7,
      7, 7, 7, 7, 7, 7, 7, 7, 7, 7, 7, 7, 7, 7, 7, 7,
      7, 7, 7, 7, 7, 7, 7, 7, 7, 7, 7, 7, 7, 7, 7, 7,
      7, 7, 7, 7, 7, 7, 7, 7, 7, 7, 7, 7, 7, 7, 7, 7,
      7, 7, 7, 7, 7, 7, 7, 7, 7, 7, 7, 7, 7, 7, 7, 7,
      7, 7, 7, 7, 7, 7, 7, 7, 7, 7, 7, 7, 7, 7, 7, 7]"

text \<open>\<^verbatim>\<open>DIGIT_TABLE[200]\<close>, lines 45-60, one string per source line.\<close>

definition DIGIT_TABLE :: "char list" where
  "DIGIT_TABLE =
      ''000102030405060'' @
      ''708091011121314'' @
      ''151617181920212'' @
      ''223242526272829'' @
      ''303132333435363'' @
      ''738394041424344'' @
      ''454647484950515'' @
      ''253545556575859'' @
      ''606162636465666'' @
      ''768697071727374'' @
      ''757677787980818'' @
      ''283848586878889'' @
      ''909192939495969'' @
      ''79899''"

text \<open>\<^verbatim>\<open>PowersOfTen[]\<close>, lines 90-101.\<close>

definition PowersOfTen :: "uint64_t list" where
  "PowersOfTen =
     [1, 10,
      100, 1000,
      10000, 100000,
      1000000, 10000000,
      100000000, 1000000000,
      10000000000, 100000000000,
      1000000000000, 10000000000000,
      100000000000000, 1000000000000000,
      10000000000000000, 100000000000000000,
      1000000000000000000, 10000000000000000000]"

section \<open>\<^verbatim>\<open>pg_leftmost_one_pos64\<close>\<close>

text \<open>
  Modelled from the spec: the compiler builtins \<^verbatim>\<open>__builtin_clzl\<close> and
  \<^verbatim>\<open>__builtin_clzll\<close> are not part of the repository. The spec calls them the hardware
  "count leading zeros" primitive (\<open>leading_zero_count\<close>), with an undefined result
  at 0: the number of 0 bits above the most significant 1 bit, counted here by scanning
  the bits from bit 63 downwards. Each is called only in a build where its operand type
  (\<^verbatim>\<open>unsigned long\<close>, \<^verbatim>\<open>unsigned long long\<close>) has 64 bits.
\<close>

definition leading_zero_count :: "uint64_t \<Rightarrow> nat" where
  "leading_zero_count w = length (takeWhile (\<lambda>i. \<not> bit w i) (rev [0..<64]))"

definition builtin_clzl :: "uint64_t \<Rightarrow> int option" where
  "builtin_clzl w = (if w = 0 then None else Some (int (leading_zero_count w)))"

definition builtin_clzll :: "uint64_t \<Rightarrow> int option" where
  "builtin_clzll w = (if w = 0 then None else Some (int (leading_zero_count w)))"

text \<open>
  The loop of lines 78-79, \<^verbatim>\<open>while ((word >> shift) == 0) shift -= 8;\<close>. A shift count
  outside \<open>[0, 63]\<close> is undefined in C, which is where the loop ends up for \<open>word = 0\<close>.
\<close>

function pg_leftmost_one_pos64_loop :: "uint64_t \<Rightarrow> int \<Rightarrow> int option" where
  "pg_leftmost_one_pos64_loop word shift =
     (if shift < 0 \<or> 64 \<le> shift then None
      else if drop_bit (nat shift) word = 0 then pg_leftmost_one_pos64_loop word (shift - 8)
      else Some shift)"
  by pat_completeness auto
termination
  by (relation "measure (\<lambda>(word, shift). nat (shift + 1))") auto

text \<open>Lines 72 and 74: the two builtin bodies.\<close>

definition pg_leftmost_one_pos64_clzl :: "uint64_t \<Rightarrow> int option" where
  "pg_leftmost_one_pos64_clzl word = do { z \<leftarrow> builtin_clzl word; Some (63 - z) }"

definition pg_leftmost_one_pos64_clzll :: "uint64_t \<Rightarrow> int option" where
  "pg_leftmost_one_pos64_clzll word = do { z \<leftarrow> builtin_clzll word; Some (63 - z) }"

text \<open>Lines 76-81: the table body.\<close>

definition pg_leftmost_one_pos64_table :: "uint64_t \<Rightarrow> int option" where
  "pg_leftmost_one_pos64_table word =
     do { shift \<leftarrow> pg_leftmost_one_pos64_loop word (64 - 8);
          p \<leftarrow> array_read pg_leftmost_one_pos (unat (drop_bit (nat shift) word AND 255));
          Some (shift + uint p) }"

text \<open>Lines 68-83: the preprocessor picks the body.\<close>

definition pg_leftmost_one_pos64 :: "pg_config \<Rightarrow> uint64_t \<Rightarrow> int option" where
  "pg_leftmost_one_pos64 cfg word =
     (if HAVE__BUILTIN_CLZ cfg \<and> SIZEOF_LONG cfg = 8 then pg_leftmost_one_pos64_clzl word
      else if HAVE__BUILTIN_CLZ cfg \<and> SIZEOF_LONG_LONG cfg = 8 then pg_leftmost_one_pos64_clzll word
      else pg_leftmost_one_pos64_table word)"

section \<open>\<^verbatim>\<open>decimalLength64\<close>\<close>

text \<open>
  Line 107, the estimate \<^verbatim>\<open>t = (pg_leftmost_one_pos64(v) + 1) * 1233 / 4096\<close>. C's
  \<^verbatim>\<open>/\<close> on \<^verbatim>\<open>int\<close> truncates towards zero (\<open>sdiv\<close>).
\<close>

definition decimalLength64_t :: "pg_config \<Rightarrow> uint64_t \<Rightarrow> int option" where
  "decimalLength64_t cfg v =
     do { p \<leftarrow> pg_leftmost_one_pos64 cfg v;
          Some (((p + 1) * 1233) sdiv 4096) }"

text \<open>
  Lines 86-109. The comparison \<^verbatim>\<open>v >= PowersOfTen[t]\<close> is 1 or 0; a negative index is
  undefined like one past the table.
\<close>

definition decimalLength64 :: "pg_config \<Rightarrow> uint64_t \<Rightarrow> int option" where
  "decimalLength64 cfg v =
     do { t \<leftarrow> decimalLength64_t cfg v;
          pw \<leftarrow> (if t < 0 then None else array_read PowersOfTen (nat t));
          Some (t + (if v \<ge> pw then 1 else 0)) }"

section \<open>\<^verbatim>\<open>pg_ulltoa_n\<close>\<close>

text \<open>
  The loop of lines 133-154 on the state \<open>(value, i, heap)\<close>; \<open>a\<close> and \<open>olength\<close> do not
  change. It returns the state at loop exit.
\<close>

function pg_ulltoa_n_loop ::
  "int \<Rightarrow> int \<Rightarrow> uint64_t \<Rightarrow> int \<Rightarrow> heap \<Rightarrow> (uint64_t \<times> int \<times> heap) option" where
  "pg_ulltoa_n_loop a olength val i h =
     (if val \<ge> 100000000 then
        (let q = val div 100000000;
             value2 = (ucast (val - 100000000 * q) :: uint32_t);
             c = value2 mod 10000;
             d = value2 div 10000;
             c0 = push_bit 1 (c mod 100);
             c1 = push_bit 1 (c div 100);
             d0 = push_bit 1 (d mod 100);
             d1 = push_bit 1 (d div 100);
             pos = a + olength - i
         in do { h \<leftarrow> memcpy (pos - 2) DIGIT_TABLE (unat c0) 2 h;
                 h \<leftarrow> memcpy (pos - 4) DIGIT_TABLE (unat c1) 2 h;
                 h \<leftarrow> memcpy (pos - 6) DIGIT_TABLE (unat d0) 2 h;
                 h \<leftarrow> memcpy (pos - 8) DIGIT_TABLE (unat d1) 2 h;
                 pg_ulltoa_n_loop a olength q (i + 8) h })
      else Some (val, i, h))"
  by pat_completeness auto
termination
  by (relation "measure (\<lambda>(a, olength, val, i, h). unat val)")
     (auto simp: unat_div word_le_nat_alt)

text \<open>Lines 159-172: the block for a remaining value of five to eight digits.\<close>

definition pg_ulltoa_n_10000 ::
  "int \<Rightarrow> int \<Rightarrow> uint32_t \<Rightarrow> int \<Rightarrow> heap \<Rightarrow> (uint32_t \<times> int \<times> heap) option" where
  "pg_ulltoa_n_10000 a olength value2 i h =
     (if value2 \<ge> 10000 then
        (let c = value2 - 10000 * (value2 div 10000);
             c0 = push_bit 1 (c mod 100);
             c1 = push_bit 1 (c div 100);
             pos = a + olength - i
         in do { h \<leftarrow> memcpy (pos - 2) DIGIT_TABLE (unat c0) 2 h;
                 h \<leftarrow> memcpy (pos - 4) DIGIT_TABLE (unat c1) 2 h;
                 Some (value2 div 10000, i + 4, h) })
      else Some (value2, i, h))"

text \<open>Lines 173-182: the block for a remaining value of three or four digits.\<close>

definition pg_ulltoa_n_100 ::
  "int \<Rightarrow> int \<Rightarrow> uint32_t \<Rightarrow> int \<Rightarrow> heap \<Rightarrow> (uint32_t \<times> int \<times> heap) option" where
  "pg_ulltoa_n_100 a olength value2 i h =
     (if value2 \<ge> 100 then
        (let c = push_bit 1 (value2 mod 100);
             pos = a + olength - i
         in do { h \<leftarrow> memcpy (pos - 2) DIGIT_TABLE (unat c) 2 h;
                 Some (value2 div 100, i + 2, h) })
      else Some (value2, i, h))"

text \<open>
  Lines 183-191: the last two digits, or the last one, which goes to \<^verbatim>\<open>*a\<close> as
  \<^verbatim>\<open>(char) ('0' + value2)\<close>: the sum is taken in 32 bits and cut to a byte.
\<close>

definition pg_ulltoa_n_10 :: "int \<Rightarrow> int \<Rightarrow> uint32_t \<Rightarrow> int \<Rightarrow> heap \<Rightarrow> heap option" where
  "pg_ulltoa_n_10 a olength value2 i h =
     (if value2 \<ge> 10 then
        (let c = push_bit 1 value2;
             pos = a + olength - i
         in memcpy (pos - 2) DIGIT_TABLE (unat c) 2 h)
      else Some (store a (char_of (unat (of_char CHR ''0'' + value2))) h))"

text \<open>Lines 116-194. The result is the returned length and the heap after the call.\<close>

definition pg_ulltoa_n :: "pg_config \<Rightarrow> uint64_t \<Rightarrow> int \<Rightarrow> heap \<Rightarrow> (int \<times> heap) option" where
  "pg_ulltoa_n cfg val a h =
     (if val = 0 then Some (1, store a CHR ''0'' h)
      else
        do { olength \<leftarrow> decimalLength64 cfg val;
             (val, i, h) \<leftarrow> pg_ulltoa_n_loop a olength val 0 h;
             (value2, i, h) \<leftarrow> pg_ulltoa_n_10000 a olength (ucast val) i h;
             (value2, i, h) \<leftarrow> pg_ulltoa_n_100 a olength value2 i h;
             h \<leftarrow> pg_ulltoa_n_10 a olength value2 i h;
             Some (olength, h) })"

section \<open>\<^verbatim>\<open>pg_lltoa\<close>\<close>

text \<open>
  Lines 203-218. \<^verbatim>\<open>uvalue = value\<close> keeps the bits; \<^verbatim>\<open>(uint64_t) 0 - uvalue\<close> wraps.
\<close>

definition pg_lltoa :: "pg_config \<Rightarrow> int64_t \<Rightarrow> int \<Rightarrow> heap \<Rightarrow> (int \<times> heap) option" where
  "pg_lltoa cfg val a h =
     (let uvalue = val;
          len = 0;
          (uvalue, len, h) =
            (if sint val < 0 then (0 - uvalue, len + 1, store (a + len) CHR ''-'' h)
             else (uvalue, len, h))
      in do { (n, h) \<leftarrow> pg_ulltoa_n cfg uvalue (a + len) h;
              let len = len + n;
              Some (len, store (a + len) (CHR 0x00) h) })"

section \<open>Reference notions of the specification\<close>

text \<open>
  \<open>p\<close> is the position of the most significant set bit of \<open>n\<close>, that is
  \<open>floor (log2 n)\<close>.
\<close>

definition msb_at :: "nat \<Rightarrow> nat \<Rightarrow> bool" where
  "msb_at n p = (2 ^ p \<le> n \<and> n < 2 ^ (p + 1))"

text \<open>\<open>d\<close> is the number of decimal digits of \<open>n\<close>.\<close>

definition digits_at :: "nat \<Rightarrow> nat \<Rightarrow> bool" where
  "digits_at n d = (1 \<le> d \<and> 10 ^ (d - 1) \<le> n \<and> n < 10 ^ d)"

text \<open>The ASCII character of a decimal digit \<open>d < 10\<close>.\<close>

definition digit_char :: "nat \<Rightarrow> char" where
  "digit_char d = char_of (48 + d)"

definition is_digit :: "char \<Rightarrow> bool" where
  "is_digit c = (c \<in> set ''0123456789'')"

text \<open>The canonical decimal text of a natural number: no leading zeros, \<open>0\<close> is "0".\<close>

fun decimal :: "nat \<Rightarrow> string" where
  "decimal n = (if n < 10 then [digit_char n] else decimal (n div 10) @ [digit_char (n mod 10)])"

declare decimal.simps [simp del]


text \<open>The \<open>n\<close> bytes of the heap from address \<open>a\<close> on.\<close>

definition read_buf :: "heap \<Rightarrow> int \<Rightarrow> nat \<Rightarrow> string" where
  "read_buf h a n = map (\<lambda>k. bytes h (a + int k)) [0..<n]"

text \<open>
  The loop invariant of \<^verbatim>\<open>pg_ulltoa_n\<close>: starting from heap \<open>h0\<close>, the \<open>i\<close> least
  significant digits of \<open>n\<close> stand in the last \<open>i\<close> of the \<open>L\<close> bytes at \<open>a\<close>, every other
  byte is as in \<open>h0\<close>, and exactly those \<open>i\<close> addresses were stored to, once each.
\<close>

definition written :: "nat \<Rightarrow> int \<Rightarrow> nat \<Rightarrow> nat \<Rightarrow> heap \<Rightarrow> heap \<Rightarrow> bool" where
  "written n a L i h0 h =
     ((\<forall>k<i. bytes h (a + int L - 1 - int k) = digit_char (n div 10 ^ k mod 10)) \<and>
      (\<forall>p. p < a + int L - int i \<or> a + int L \<le> p \<longrightarrow> bytes h p = bytes h0 p) \<and>
      (\<exists>ws. stores h = ws @ stores h0 \<and> length ws = i \<and>
            set ws = {a + int L - int i ..< a + int L}))"

text \<open>
  Two build configurations, one for each kind of body of \<^verbatim>\<open>pg_leftmost_one_pos64\<close>, and
  a heap with nothing stored yet, for concrete instances.
\<close>

definition clz_build :: pg_config where
  "clz_build = \<lparr>HAVE__BUILTIN_CLZ = True, SIZEOF_LONG = 8, SIZEOF_LONG_LONG = 8\<rparr>"

definition table_build :: pg_config where
  "table_build = \<lparr>HAVE__BUILTIN_CLZ = False, SIZEOF_LONG = 4, SIZEOF_LONG_LONG = 8\<rparr>"

definition blank :: heap where
  "blank = \<lparr>bytes = (\<lambda>p. CHR ''x''), stores = []\<rparr>"

section \<open>The position of the most significant bit\<close>

lemma pg_leftmost_one_pos_all:
  "list_all (\<lambda>b. 2 ^ unat (pg_leftmost_one_pos ! b) \<le> b \<and> b < 2 ^ (unat (pg_leftmost_one_pos ! b) + 1)) [1..<256]"
  by code_simp

lemma length_pg_leftmost_one_pos: "length pg_leftmost_one_pos = 256"
  by (simp add: pg_leftmost_one_pos_def)

lemma pg_leftmost_one_pos_bounds:
  assumes "1 \<le> b" "b < 256"
  shows "2 ^ unat (pg_leftmost_one_pos ! b) \<le> b" "b < 2 ^ (unat (pg_leftmost_one_pos ! b) + 1)"
  using pg_leftmost_one_pos_all assms by (simp_all add: list_all_iff)

lemma msb_at_exists:
  assumes "w \<noteq> (0 :: uint64_t)"
  shows "\<exists>p. p < 64 \<and> msb_at (unat w) p"
proof -
  have "1 \<le> unat w" using assms by (simp add: unat_gt_0 Suc_le_eq)
  then obtain p where p: "2 ^ p \<le> unat w" "unat w < 2 ^ (p + 1)"
    using ex_power_ivl1 [of 2 "unat w"] by auto
  have "unat w < 2 ^ 64" using unsigned_less [of w] by simp
  with p(1) have "(2::nat) ^ p < 2 ^ 64" by linarith
  then have "p < 64" by (rule power_less_imp_less_exp [rotated]) simp
  with p show ?thesis by (auto simp: msb_at_def)
qed

lemma msb_at_unique: "msb_at n p \<Longrightarrow> msb_at n q \<Longrightarrow> p = q"
proof (rule ccontr)
  assume a: "msb_at n p" "msb_at n q" "p \<noteq> q"
  { fix p q :: nat assume pq: "msb_at n p" "msb_at n q" "p < q"
    then have "(2::nat) ^ (p + 1) \<le> 2 ^ q" by (intro power_increasing) auto
    with pq have False by (simp add: msb_at_def) }
  with a show False by (metis nat_neq_iff)
qed

lemma msb_at_floor_log: "msb_at n p \<Longrightarrow> \<lfloor>log 2 (real n)\<rfloor> = int p"
  using floor_log_nat_eq_if [of 2 p n] by (simp add: msb_at_def)

lemma msb_at_bit:
  assumes "msb_at (unat w) p"
  shows "bit w p" and "\<And>i. p < i \<Longrightarrow> \<not> bit w i"
proof -
  let ?n = "unat w"
  have "?n div 2 ^ p = 1"
    using assms by (simp add: msb_at_def div_nat_eqI)
  then have "bit ?n p" by (simp add: bit_iff_odd)
  then show "bit w p" by (simp add: bit_unsigned_iff)
  fix i assume "p < i"
  then have "(2::nat) ^ (p + 1) \<le> 2 ^ i" by (intro power_increasing) auto
  with assms have "?n < 2 ^ i" by (simp add: msb_at_def)
  then have "\<not> bit ?n i" by (simp add: bit_iff_odd)
  then show "\<not> bit w i" by (simp add: bit_unsigned_iff)
qed

lemma leading_zero_count_msb:
  assumes "msb_at (unat w) p" "p < 64"
  shows "leading_zero_count w = 63 - p"
proof -
  have "[0..<p + (64 - p)] = [0..<p] @ [p..<p + (64 - p)]"
    by (rule upt_add_eq_append) simp
  then have split: "[0..<64] = [0..<p] @ p # [Suc p..<64]"
    using assms(2) by (simp add: upt_conv_Cons)
  have "rev [0..<64] = rev [Suc p..<64] @ p # rev [0..<p]"
    by (simp add: split)
  moreover have "\<And>x. x \<in> set (rev [Suc p..<64]) \<Longrightarrow> \<not> bit w x"
    using msb_at_bit(2) [OF assms(1)] by auto
  ultimately have "takeWhile (\<lambda>i. \<not> bit w i) (rev [0..<64]) = rev [Suc p..<64]"
    using msb_at_bit(1) [OF assms(1)]
    by (simp only: takeWhile_tail [of "\<lambda>i. \<not> bit w i" p] not_not takeWhile_eq_all_conv) simp
  then show ?thesis using assms(2) by (simp add: leading_zero_count_def)
qed

lemma pg_leftmost_one_pos64_loop_msb:
  assumes "w \<noteq> 0" "0 \<le> shift" "shift < 64" "shift mod 8 = 0" "unat w < 2 ^ (nat shift + 8)"
  shows "\<exists>s. pg_leftmost_one_pos64_loop w shift = Some s \<and> 0 \<le> s \<and> s < 64 \<and>
             drop_bit (nat s) w \<noteq> 0 \<and> unat w < 2 ^ (nat s + 8)"
  using assms
proof (induction w shift rule: pg_leftmost_one_pos64_loop.induct)
  case (1 word shift)
  show ?case
  proof (cases "drop_bit (nat shift) word = 0")
    case False
    with "1.prems" show ?thesis by simp
  next
    case True
    then have "unat word div 2 ^ nat shift = 0"
      by (metis drop_bit_eq_div unat_drop_bit_eq unat_eq_0)
    then have small: "unat word < 2 ^ nat shift"
      by (simp add: div_eq_0_iff)
    have "0 < unat word" using "1.prems"(1) by (simp add: unat_gt_0)
    with small have "shift \<noteq> 0" by auto
    with "1.prems" have ge: "8 \<le> shift" by presburger
    then have "nat (shift - 8) + 8 = nat shift" by simp
    with small have "unat word < 2 ^ (nat (shift - 8) + 8)" by simp
    moreover have "(shift - 8) mod 8 = 0" using "1.prems"(4) by presburger
    ultimately have "\<exists>s. pg_leftmost_one_pos64_loop word (shift - 8) = Some s \<and> 0 \<le> s \<and> s < 64 \<and>
             drop_bit (nat s) word \<noteq> 0 \<and> unat word < 2 ^ (nat s + 8)"
      using "1.IH" [OF _ True] "1.prems" ge by simp
    then show ?thesis using True "1.prems" by simp
  qed
qed

lemma pg_leftmost_one_pos64_table_msb:
  assumes "msb_at (unat w) p"
  shows "pg_leftmost_one_pos64_table w = Some (int p)"
proof -
  let ?n = "unat w"
  have nz: "w \<noteq> 0" using assms by (auto simp: msb_at_def)
  have "?n < 2 ^ (nat 56 + 8)" using unsigned_less [of w] by simp
  then obtain s where s: "pg_leftmost_one_pos64_loop w 56 = Some s" "0 \<le> s" "s < 64"
      "drop_bit (nat s) w \<noteq> 0" "?n < 2 ^ (nat s + 8)"
    using pg_leftmost_one_pos64_loop_msb [OF nz, of 56] by auto
  define b where "b = ?n div 2 ^ nat s"
  have b_lt: "b < 256"
    using s(5) by (simp add: b_def less_mult_imp_div_less power_add mult.commute)
  have drop: "unat (drop_bit (nat s) w) = b"
    by (simp only: b_def unat_drop_bit_eq drop_bit_nat_def)
  have "unat (drop_bit (nat s) w) \<noteq> 0" using s(4) by (simp only: unat_eq_0 not_False_eq_True)
  then have b_ge: "1 \<le> b"
    unfolding drop by simp
  have "(255 :: uint64_t) = mask 8"
    by (simp add: mask_eq_exp_minus_1)
  then have "unat (drop_bit (nat s) w AND 255) = unat (take_bit 8 (drop_bit (nat s) w))"
    by (simp only: take_bit_eq_mask)
  also have "\<dots> = b mod 256"
    unfolding unsigned_take_bit_eq drop take_bit_nat_def by simp
  finally have idx: "unat (drop_bit (nat s) w AND 255) = b"
    using b_lt by simp
  define l where "l = unat (pg_leftmost_one_pos ! b)"
  have l: "2 ^ l \<le> b" "b < 2 ^ (l + 1)"
    using pg_leftmost_one_pos_bounds [OF b_ge b_lt] by (simp_all add: l_def)
  have "2 ^ l * 2 ^ nat s \<le> ?n"
    using l(1) by (simp add: b_def less_eq_div_iff_mult_less_eq)
  moreover have "?n < 2 ^ (l + 1) * 2 ^ nat  s"
    using l(2) by (simp add: b_def div_less_iff_less_mult)
  ultimately have "msb_at ?n (l + nat s)"
    by (simp add: msb_at_def power_add)
  then have "p = l + nat s" using assms msb_at_unique by blast
  then show ?thesis
    using s(1,2) idx b_lt
    by (simp add: pg_leftmost_one_pos64_table_def array_read_def length_pg_leftmost_one_pos l_def)
qed

lemma pg_leftmost_one_pos64_clzl_msb:
  assumes "msb_at (unat w) p" "p < 64"
  shows "pg_leftmost_one_pos64_clzl w = Some (int p)"
proof -
  have "w \<noteq> 0" using assms by (auto simp: msb_at_def)
  then show ?thesis
    using leading_zero_count_msb [OF assms] assms(2)
    by (simp add: pg_leftmost_one_pos64_clzl_def builtin_clzl_def)
qed

lemma pg_leftmost_one_pos64_clzll_msb:
  assumes "msb_at (unat w) p" "p < 64"
  shows "pg_leftmost_one_pos64_clzll w = Some (int p)"
proof -
  have "w \<noteq> 0" using assms by (auto simp: msb_at_def)
  then show ?thesis
    using leading_zero_count_msb [OF assms] assms(2)
    by (simp add: pg_leftmost_one_pos64_clzll_def builtin_clzll_def)
qed

lemma pg_leftmost_one_pos64_msb:
  assumes "msb_at (unat w) p" "p < 64"
  shows "pg_leftmost_one_pos64 cfg w = Some (int p)"
  by (simp add: pg_leftmost_one_pos64_def pg_leftmost_one_pos64_clzl_msb [OF assms]
      pg_leftmost_one_pos64_clzll_msb [OF assms] pg_leftmost_one_pos64_table_msb [OF assms(1)])

lemma pg_leftmost_one_pos64_zero: "pg_leftmost_one_pos64 cfg 0 = None"
proof -
  have "pg_leftmost_one_pos64_loop 0 56 = None"
    by (simp add: pg_leftmost_one_pos64_loop.simps [of 0])
  then show ?thesis
  by (simp add: pg_leftmost_one_pos64_def pg_leftmost_one_pos64_clzl_def pg_leftmost_one_pos64_clzll_def
      builtin_clzl_def builtin_clzll_def pg_leftmost_one_pos64_table_def)
qed

section \<open>The digit count\<close>

lemma PowersOfTen_all:
  "list_all (\<lambda>t. unat (PowersOfTen ! t) = 10 ^ t) [0..<20]"
  by (simp add: upt_rec PowersOfTen_def)

lemma length_PowersOfTen: "length PowersOfTen = 20"
  by (simp add: PowersOfTen_def)

lemma PowersOfTen_nth: "t < 20 \<Longrightarrow> unat (PowersOfTen ! t) = 10 ^ t"
  using PowersOfTen_all by (simp add: list_all_iff)

text \<open>The estimate of line 107 as a function of the bit position.\<close>

lemma estimate_all:
  "list_all (\<lambda>p. let t = (p + 1) * 1233 div 4096 in
       t < 20 \<and> (2::nat) ^ (p + 1) \<le> 10 ^ (t + 1) \<and> (10::nat) ^ t \<le> 10 * 2 ^ p) [0..<64]"
  unfolding Let_def by (simp add: upt_rec)

lemma estimate_bounds:
  assumes "p < 64"
  defines "t \<equiv> (p + 1) * 1233 div 4096"
  shows "t < 20" "(2::nat) ^ (p + 1) \<le> 10 ^ (t + 1)" "(10::nat) ^ t \<le> 10 * 2 ^ p"
  using estimate_all assms(1) unfolding t_def by (simp_all add: list_all_iff Let_def)

lemma decimalLength64_t_msb:
  assumes "msb_at (unat v) p" "p < 64"
  shows "decimalLength64_t cfg v = Some (int ((p + 1) * 1233 div 4096))"
proof -
  have "((int p + 1) * 1233) sdiv 4096 = int ((p + 1) * 1233 div 4096)"
    by (simp add: signed_divide_int_def zdiv_int sgn_if)
  then show ?thesis
    by (simp add: decimalLength64_t_def pg_leftmost_one_pos64_msb [OF assms])
qed

lemma digits_at_unique: "digits_at n d \<Longrightarrow> digits_at n e \<Longrightarrow> d = e"
proof (rule ccontr)
  assume a: "digits_at n d" "digits_at n e" "d \<noteq> e"
  { fix d e :: nat assume de: "digits_at n d" "digits_at n e" "d < e"
    then have "(10::nat) ^ d \<le> 10 ^ (e - 1)" by (intro power_increasing) auto
    with de have False unfolding digits_at_def by linarith }
  with a show False by (metis nat_neq_iff)
qed

lemma digits_at_floor_log: "digits_at n d \<Longrightarrow> \<lfloor>log 10 (real n)\<rfloor> = int d - 1"
  using floor_log_nat_eq_if [of 10 "d - 1" n] by (simp add: digits_at_def of_nat_diff)

lemma decimalLength64_msb:
  assumes "msb_at (unat v) p" "p < 64"
  defines "t \<equiv> (p + 1) * 1233 div 4096"
  shows "decimalLength64 cfg v = Some (int (t + (if 10 ^ t \<le> unat v then 1 else 0)))"
    and "digits_at (unat v) (t + (if 10 ^ t \<le> unat v then 1 else 0))"
proof -
  let ?n = "unat v"
  have t: "t < 20" "(2::nat) ^ (p + 1) \<le> 10 ^ (t + 1)" "(10::nat) ^ t \<le> 10 * 2 ^ p"
    using estimate_bounds [OF assms(2)] by (simp_all add: t_def)
  have "(PowersOfTen ! t \<le> v) = (10 ^ t \<le> ?n)"
    by (simp add: word_le_nat_alt PowersOfTen_nth [OF t(1)])
  moreover have "decimalLength64_t cfg v = Some (int t)"
    using decimalLength64_t_msb [OF assms(1,2)] by (simp only: t_def)
  ultimately show "decimalLength64 cfg v = Some (int (t + (if 10 ^ t \<le> ?n then 1 else 0)))"
    using t(1) by (simp add: decimalLength64_def array_read_def length_PowersOfTen)
  have n: "2 ^ p \<le> ?n" "?n < 2 ^ (p + 1)"
    using assms(1) by (simp_all add: msb_at_def)
  show "digits_at ?n (t + (if 10 ^ t \<le> ?n then 1 else 0))"
  proof (cases "10 ^ t \<le> ?n")
    case True
    then show ?thesis using n(2) t(2) by (simp add: digits_at_def)
  next
    case False
    have "1 \<le> ?n" using n(1) by (meson one_le_numeral one_le_power order_trans)
    with False have "t \<noteq> 0" by (cases t) auto
    then obtain t' where t': "t = Suc t'" by (cases t) auto
    have "(10::nat) ^ t' \<le> 2 ^ p" using t(3) by (simp add: t')
    with False n(1) show ?thesis by (simp add: digits_at_def t')
  qed
qed

lemma digits_at_exists:
  assumes "1 \<le> n"
  shows "\<exists>d. digits_at n d"
proof -
  obtain k where "10 ^ k \<le> n" "n < 10 ^ (k + 1)"
    using ex_power_ivl1 [of 10 n] assms by auto
  then have "digits_at n (k + 1)" by (simp add: digits_at_def)
  then show ?thesis ..
qed

lemma decimalLength64_digits:
  assumes "v \<noteq> 0" "digits_at (unat v) d"
  shows "decimalLength64 cfg v = Some (int d)"
proof -
  obtain p where p: "p < 64" "msb_at (unat v) p"
    using msb_at_exists [OF assms(1)] by blast
  show ?thesis
    using decimalLength64_msb(1) [OF p(2,1), of cfg] decimalLength64_msb(2) [OF p(2,1)]
      digits_at_unique [OF assms(2)]
    by fastforce
qed

lemma digits_at_le_20: 
  assumes "digits_at (unat (v :: uint64_t)) d" shows "d \<le> 20"
proof (rule ccontr)
  assume "\<not> d \<le> 20"
  then have "(10::nat) ^ 20 \<le> 10 ^ (d - 1)" by (intro power_increasing) auto
  moreover have "unat v < 2 ^ 64" using unsigned_less [of v] by simp
  ultimately show False using assms unfolding digits_at_def by simp
qed

lemma digits_at_mono:
  assumes "digits_at m d" "digits_at n e" "m \<le> n"
  shows "d \<le> e"
proof (rule ccontr)
  assume "\<not> d \<le> e"
  then have "(10::nat) ^ e \<le> 10 ^ (d - 1)" by (intro power_increasing) auto
  then show False using assms unfolding digits_at_def by linarith
qed


section \<open>Writing digit pairs\<close>

lemma digit_char_numerals:
  "digit_char 0 = CHR ''0''" "digit_char 1 = CHR ''1''" "digit_char 2 = CHR ''2''"
  "digit_char 3 = CHR ''3''" "digit_char 4 = CHR ''4''" "digit_char 5 = CHR ''5''"
  "digit_char 6 = CHR ''6''" "digit_char 7 = CHR ''7''" "digit_char 8 = CHR ''8''"
  "digit_char 9 = CHR ''9''"
  by code_simp+

lemma digit_char_Suc_0: "digit_char (Suc 0) = CHR ''1''"
  using digit_char_numerals(2) by simp

lemma DIGIT_TABLE_all:
  "list_all (\<lambda>n. DIGIT_TABLE ! (2 * n) = digit_char (n div 10) \<and>
                 DIGIT_TABLE ! (2 * n + 1) = digit_char (n mod 10)) [0..<100]"
  by code_simp

lemma mod_mult_div: "(m mod (a * b)) div a = (m div a) mod (b::nat)"
  by (metis add.right_neutral div_mult_self4 mod_by_0 mod_div_trivial
    mod_mult2_eq mod_mult_self2_is_0)

lemma pair_lo: "n div 10 ^ i mod 100 mod 10 = n div 10 ^ i mod (10::nat)"
  by (simp add: mod_mod_cancel)

lemma pair_hi: "n div 10 ^ i mod 100 div 10 = n div 10 ^ Suc i mod (10::nat)"
proof -
  have "n div 10 ^ i mod (10 * 10) div 10 = n div 10 ^ i div 10 mod 10"
    by (rule mod_mult_div)
  moreover have "n div 10 ^ Suc i = n div (10 ^ i * 10)"
    by (simp add: mult.commute)
  then have "n div 10 ^ Suc i = n div 10 ^ i div 10"
    by (simp only: div_mult2_eq)
  ultimately show ?thesis
    by simp
qed

lemma div_pow_add: "n div 10 ^ i div 10 ^ j = n div (10::nat) ^ (i + j)"
  by (simp add: div_mult2_eq power_add)

lemma length_DIGIT_TABLE: "length DIGIT_TABLE = 200"
  by (simp add: DIGIT_TABLE_def)

lemma DIGIT_TABLE_pair:
  assumes "n < 100"
  shows "array_read DIGIT_TABLE (2 * n) = Some (digit_char (n div 10))"
    and "array_read DIGIT_TABLE (Suc (2 * n)) = Some (digit_char (n mod 10))"
  using DIGIT_TABLE_all assms by (simp_all add: list_all_iff array_read_def length_DIGIT_TABLE)

lemma memcpy_2:
  "memcpy dst src off 2 h =
     do { c0 \<leftarrow> array_read src off; c1 \<leftarrow> array_read src (off + 1);
          Some (store (dst + 1) c1 (store dst c0 h)) }"
  by (simp add: numeral_2_eq_2)

lemma written_init: "written n a L 0 h h"
  by (simp add: written_def)

lemma written_store:
  assumes "written n a L i h0 h" "p = a + int L - int i - 1" "c = digit_char (n div 10 ^ i mod 10)"
  shows "written n a L (Suc i) h0 (store p c h)"
proof -
  obtain ws where ws: "stores h = ws @ stores h0" "length ws = i"
      "set ws = {a + int L - int i ..< a + int L}"
    using assms(1) by (auto simp: written_def)
  have "\<forall>k<Suc i. bytes (store p c h) (a + int L - 1 - int k) = digit_char (n div 10 ^ k mod 10)"
    using assms by (auto simp: written_def store_def less_Suc_eq)
  moreover have "\<forall>q. q < a + int L - int (Suc i) \<or> a + int L \<le> q \<longrightarrow>
      bytes (store p c h) q = bytes h0 q"
    using assms by (auto simp: written_def store_def)
  moreover have "stores (store p c h) = (p # ws) @ stores h0 \<and> length (p # ws) = Suc i \<and>
      set (p # ws) = {a + int L - int (Suc i) ..< a + int L}"
    using ws assms(2) by (auto simp: store_def)
  ultimately show ?thesis
    unfolding written_def by blast
qed

lemma written_pair:
  assumes "written n a L i h0 h" "x = n div 10 ^ i mod 100"
  shows "\<exists>h'. memcpy (a + int L - int i - 2) DIGIT_TABLE (2 * x) 2 h = Some h' \<and>
              written n a L (i + 2) h0 h'"
proof -
  have x: "x < 100" using assms(2) by simp
  have lo: "x mod 10 = n div 10 ^ i mod 10"
    using assms(2) by (simp only: pair_lo)
  have hi: "x div 10 = n div 10 ^ Suc i mod 10"
    using assms(2) by (simp only: pair_hi)
  define d where "d = a + int L - int i - 2"
  define h' where "h' = store (d + 1) (digit_char (x mod 10)) (store d (digit_char (x div 10)) h)"
  obtain ws where ws: "stores h = ws @ stores h0" "length ws = i"
      "set ws = {a + int L - int i ..< a + int L}"
    using assms(1) by (auto simp: written_def)
  have old: "\<And>k. k < i \<Longrightarrow> bytes h (a + int L - 1 - int k) = digit_char (n div 10 ^ k mod 10)"
    using assms(1) by (simp add: written_def)
  have frame: "\<And>p. p < a + int L - int i \<or> a + int L \<le> p \<Longrightarrow> bytes h p = bytes h0 p"
    using assms(1) unfolding written_def by blast
  have "bytes h' (a + int L - 1 - int k) = digit_char (n div 10 ^ k mod 10)" if "k < i + 2" for k
  proof -
    have "k < i \<or> k = i \<or> k = Suc i" using that by linarith
    then consider "k < i" | "k = i" | "k = Suc i" by blast
    then show ?thesis
    proof cases
      case 1
      then show ?thesis using old [OF 1] by (simp add: h'_def store_def d_def)
    next
      case 2
      then show ?thesis by (simp add: h'_def store_def d_def lo)
    next
      case 3
      then show ?thesis by (simp add: h'_def store_def d_def hi)
    qed
  qed
  moreover have "bytes h' p = bytes h0 p" if "p < a + int L - int (i + 2) \<or> a + int L \<le> p" for p
    using that frame [of p] by (auto simp: h'_def store_def d_def)
  moreover have "stores h' = ((d + 1) # d # ws) @ stores h0 \<and> length ((d + 1) # d # ws) = i + 2 \<and>
      set ((d + 1) # d # ws) = {a + int L - int (i + 2) ..< a + int L}"
    using ws by (auto simp: h'_def store_def d_def)
  ultimately have "written n a L (i + 2) h0 h'"
    unfolding written_def by blast
  moreover have "memcpy d DIGIT_TABLE (2 * x) 2 h = Some h'"
    by (simp add: memcpy_2 DIGIT_TABLE_pair [OF x] h'_def)
  ultimately show ?thesis
    unfolding d_def by blast
qed

lemma written_last:
  assumes "written n a (Suc i) i h0 h" "m = n div 10 ^ i" "m < 10"
  shows "written n a (Suc i) (Suc i) h0 (store a (digit_char m) h)"
  using assms(1) by (rule written_store) (use assms(2,3) in simp_all)


section \<open>The digit loop and the tail blocks of \<^verbatim>\<open>pg_ulltoa_n\<close>\<close>

lemma unat_ucast_64_32: "unat (x :: uint64_t) < 2 ^ 32 \<Longrightarrow> unat (ucast x :: uint32_t) = unat x"
  by (simp add: unsigned_ucast_eq take_bit_nat_eq_self)

lemma unat_push_bit_1:
  assumes "unat (x :: uint32_t) < 100"
  shows "unat (push_bit 1 x) = 2 * unat x"
proof -
  have "unat (push_bit 1 x) = unat (x * 2)"
    by (simp add: push_bit_eq_mult)
  also have "\<dots> = unat x * 2 mod 2 ^ 32"
    by (simp add: unat_word_ariths)
  also have "\<dots> = 2 * unat x"
    using assms by simp
  finally show ?thesis .
qed

lemma word_sub_mult_div: "(x :: 'a::len word) - c * (x div c) = x mod c"
  by (simp add: minus_mult_div_eq_mod)

text \<open>The four table offsets of one loop iteration, for a value \<open>m\<close> of the loop variable.\<close>

lemma loop_offsets:
  fixes val :: uint64_t
  defines "value2 \<equiv> (ucast (val - 100000000 * (val div 100000000)) :: uint32_t)"
  defines "m \<equiv> unat val"
  shows "unat (push_bit 1 (value2 mod 10000 mod 100)) = 2 * (m mod 100)"
    and "unat (push_bit 1 (value2 mod 10000 div 100)) = 2 * (m div 10 ^ 2 mod 100)"
    and "unat (push_bit 1 (value2 div 10000 mod 100)) = 2 * (m div 10 ^ 4 mod 100)"
    and "unat (push_bit 1 (value2 div 10000 div 100)) = 2 * (m div 10 ^ 6 mod 100)"
proof -
  have "unat (val mod 100000000) = m mod 100000000"
    by (simp add: unat_mod m_def)
  moreover have "m mod 100000000 < 2 ^ 32"
    by (rule less_trans [of _ 100000000]) simp_all
  ultimately have v2: "unat value2 = m mod 100000000"
    by (simp add: value2_def word_sub_mult_div unat_ucast_64_32)
  have c: "unat (value2 mod 10000) = m mod 10000"
    by (simp add: unat_mod v2 mod_mod_cancel)
  have "m mod (10000 * 10000) div 10000 = m div 10000 mod 10000"
    by (rule mod_mult_div)
  then have d: "unat (value2 div 10000) = m div 10000 mod 10000"
    by (simp add: unat_div v2)
  have c0: "unat (value2 mod 10000 mod 100) = m mod 100"
    by (simp add: unat_mod c v2 mod_mod_cancel)
  have "m mod (100 * 100) div 100 = m div 100 mod 100"
    by (rule mod_mult_div)
  then have c1: "unat (value2 mod 10000 div 100) = m div 10 ^ 2 mod 100"
    by (simp add: unat_div c)
  have d0: "unat (value2 div 10000 mod 100) = m div 10 ^ 4 mod 100"
    by (simp add: unat_mod d mod_mod_cancel)
  have "m mod (1000000 * 100) div 1000000 = m div 1000000 mod 100"
    by (rule mod_mult_div)
  then have d1: "unat (value2 div 10000 div 100) = m div 10 ^ 6 mod 100"
    by (simp add: unat_div v2)
  show "unat (push_bit 1 (value2 mod 10000 mod 100)) = 2 * (m mod 100)"
    by (subst unat_push_bit_1) (simp_all add: c0)
  show "unat (push_bit 1 (value2 mod 10000 div 100)) = 2 * (m div 10 ^ 2 mod 100)"
    by (subst unat_push_bit_1) (simp_all add: c1)
  show "unat (push_bit 1 (value2 div 10000 mod 100)) = 2 * (m div 10 ^ 4 mod 100)"
    by (subst unat_push_bit_1) (simp_all add: d0)
  show "unat (push_bit 1 (value2 div 10000 div 100)) = 2 * (m div 10 ^ 6 mod 100)"
    by (subst unat_push_bit_1) (simp_all add: d1)
qed

lemma pg_ulltoa_n_loop_step:
  assumes "100000000 \<le> val"
  shows "pg_ulltoa_n_loop a ol val i h =
    do { h \<leftarrow> memcpy (a + ol - i - 2) DIGIT_TABLE (2 * (unat val mod 100)) 2 h;
         h \<leftarrow> memcpy (a + ol - i - 4) DIGIT_TABLE (2 * (unat val div 10 ^ 2 mod 100)) 2 h;
         h \<leftarrow> memcpy (a + ol - i - 6) DIGIT_TABLE (2 * (unat val div 10 ^ 4 mod 100)) 2 h;
         h \<leftarrow> memcpy (a + ol - i - 8) DIGIT_TABLE (2 * (unat val div 10 ^ 6 mod 100)) 2 h;
         pg_ulltoa_n_loop a ol (val div 100000000) (i + 8) h }"
  by (subst pg_ulltoa_n_loop.simps) (simp only: assms if_True Let_def loop_offsets)

lemma pg_ulltoa_n_loop_exit:
  assumes "\<not> 100000000 \<le> val"
  shows "pg_ulltoa_n_loop a ol val i h = Some (val, i, h)"
  by (subst pg_ulltoa_n_loop.simps) (simp only: assms if_False)

lemma pg_ulltoa_n_loop_written:
  assumes "written n a L i h0 h" "unat val = n div 10 ^ i" "1 \<le> unat val"
  shows "\<exists>val' i' h'. pg_ulltoa_n_loop a (int L) val (int i) h = Some (val', int i', h') \<and>
          written n a L i' h0 h' \<and> unat val' = n div 10 ^ i' \<and> 1 \<le> unat val' \<and>
          unat val' < 100000000"
  using assms
proof (induction "unat val" arbitrary: val i h rule: less_induct)
  case less
  show ?case
  proof (cases "100000000 \<le> val")
    case False
    then have "unat val < 100000000"
      by (simp add: word_le_nat_alt)
    then show ?thesis
      using less.prems pg_ulltoa_n_loop_exit [OF False] by blast
  next
    case True
    let ?m = "unat val"
    have m: "100000000 \<le> ?m"
      using True by (simp add: word_le_nat_alt)
    have x0: "?m mod 100 = n div 10 ^ i mod 100"
      by (simp only: less.prems(2))
    have x1: "?m div 10 ^ 2 mod 100 = n div 10 ^ (i + 2) mod 100"
      by (simp only: less.prems(2) div_pow_add)
    have "i + 2 + 2 = i + 4" "i + 2 + 2 + 2 = i + 6"
      by simp_all
    then have x2: "?m div 10 ^ 4 mod 100 = n div 10 ^ (i + 2 + 2) mod 100"
      and x3: "?m div 10 ^ 6 mod 100 = n div 10 ^ (i + 2 + 2 + 2) mod 100"
      by (simp_all only: less.prems(2) div_pow_add)
    obtain h1 where h1: "memcpy (a + int L - int i - 2) DIGIT_TABLE (2 * (?m mod 100)) 2 h = Some h1"
        "written n a L (i + 2) h0 h1"
      using written_pair [OF less.prems(1) x0] by blast
    obtain h2 where h2: "memcpy (a + int L - int (i + 2) - 2) DIGIT_TABLE (2 * (?m div 10 ^ 2 mod 100)) 2 h1 = Some h2"
        "written n a L (i + 2 + 2) h0 h2"
      using written_pair [OF h1(2) x1] by blast
    obtain h3 where h3: "memcpy (a + int L - int (i + 2 + 2) - 2) DIGIT_TABLE (2 * (?m div 10 ^ 4 mod 100)) 2 h2 = Some h3"
        "written n a L (i + 2 + 2 + 2) h0 h3"
      using written_pair [OF h2(2) x2] by blast
    obtain h4 where h4: "memcpy (a + int L - int (i + 2 + 2 + 2) - 2) DIGIT_TABLE (2 * (?m div 10 ^ 6 mod 100)) 2 h3 = Some h4"
        "written n a L (i + 2 + 2 + 2 + 2) h0 h4"
      using written_pair [OF h3(2) x3] by blast
    have pos: "a + int L - int (i + 2) - 2 = a + int L - int i - 4"
      "a + int L - int (i + 2 + 2) - 2 = a + int L - int i - 6"
      "a + int L - int (i + 2 + 2 + 2) - 2 = a + int L - int i - 8"
      "i + 2 + 2 + 2 + 2 = i + 8" "int i + 8 = int (i + 8)"
      by simp_all
    have step: "pg_ulltoa_n_loop a (int L) val (int i) h =
        pg_ulltoa_n_loop a (int L) (val div 100000000) (int (i + 8)) h4"
      using h1(1) h2(1) h3(1) h4(1) unfolding pos
      by (simp only: pg_ulltoa_n_loop_step [OF True] bind.bind_lunit pos)
    let ?q = "val div 100000000"
    have q: "unat ?q = ?m div 100000000"
      by (simp add: unat_div)
    have "unat ?q < ?m"
      using m unfolding q by simp
    moreover have "written n a L (i + 8) h0 h4"
      using h4(2) by (simp only: pos)
    moreover have "unat ?q = n div 10 ^ (i + 8)"
      unfolding q less.prems(2) using div_pow_add [of n i 8] by simp
    moreover have "1 \<le> unat ?q"
      using m unfolding q by simp
    ultimately show ?thesis
      unfolding step by (rule less.hyps)
  qed
qed


lemma pg_ulltoa_n_10000_written:
  assumes "written n a L i h0 h" "unat value2 = n div 10 ^ i" "1 \<le> unat value2"
    "unat value2 < 100000000"
  shows "\<exists>v' i' h'. pg_ulltoa_n_10000 a (int L) value2 (int i) h = Some (v', int i', h') \<and>
          written n a L i' h0 h' \<and> unat v' = n div 10 ^ i' \<and> 1 \<le> unat v' \<and>
          unat v' < 10000"
proof (cases "10000 \<le> value2")
  case False
  then have "unat value2 < 10000"
    by (simp add: word_le_nat_alt)
  moreover have "pg_ulltoa_n_10000 a (int L) value2 (int i) h = Some (value2, int i, h)"
    using False by (simp add: pg_ulltoa_n_10000_def)
  ultimately show ?thesis
    using assms by blast
next
  case True
  let ?m = "unat value2"
  have m: "10000 \<le> ?m"
    using True by (simp add: word_le_nat_alt)
  have c: "unat (value2 mod 10000) = ?m mod 10000"
    by (simp add: unat_mod)
  have c0: "unat (value2 mod 10000 mod 100) = ?m mod 100"
    by (simp add: unat_mod mod_mod_cancel)
  have "?m mod (100 * 100) div 100 = ?m div 100 mod 100"
    by (rule mod_mult_div)
  then have c1: "unat (value2 mod 10000 div 100) = ?m div 10 ^ 2 mod 100"
    by (simp add: unat_div c)
  have o0: "unat (push_bit 1 (value2 mod 10000 mod 100)) = 2 * (?m mod 100)"
    by (subst unat_push_bit_1) (simp_all add: c0)
  have o1: "unat (push_bit 1 (value2 mod 10000 div 100)) = 2 * (?m div 10 ^ 2 mod 100)"
    by (subst unat_push_bit_1) (simp_all add: c1)
  have x0: "?m mod 100 = n div 10 ^ i mod 100"
    by (simp only: assms(2))
  have x1: "?m div 10 ^ 2 mod 100 = n div 10 ^ (i + 2) mod 100"
    by (simp only: assms(2) div_pow_add)
  obtain h1 where h1: "memcpy (a + int L - int i - 2) DIGIT_TABLE (2 * (?m mod 100)) 2 h = Some h1"
      "written n a L (i + 2) h0 h1"
    using written_pair [OF assms(1) x0] by blast
  obtain h2 where h2: "memcpy (a + int L - int (i + 2) - 2) DIGIT_TABLE (2 * (?m div 10 ^ 2 mod 100)) 2 h1 = Some h2"
      "written n a L (i + 2 + 2) h0 h2"
    using written_pair [OF h1(2) x1] by blast
  have pos: "a + int L - int (i + 2) - 2 = a + int L - int i - 4"
    "i + 2 + 2 = i + 4" "int i + 4 = int (i + 4)"
    by simp_all
  have "pg_ulltoa_n_10000 a (int L) value2 (int i) h = Some (value2 div 10000, int (i + 4), h2)"
    using h1(1) h2(1) unfolding pos
    by (simp only: pg_ulltoa_n_10000_def True if_True Let_def word_sub_mult_div o0 o1
        bind.bind_lunit pos)
  moreover have "written n a L (i + 4) h0 h2"
    using h2(2) by (simp only: pos)
  moreover have q: "unat (value2 div 10000) = ?m div 10000"
    by (simp add: unat_div)
  have "unat (value2 div 10000) = n div 10 ^ (i + 4)"
    unfolding q assms(2) using div_pow_add [of n i 4] by simp
  moreover have "1 \<le> unat (value2 div 10000)" "unat (value2 div 10000) < 10000"
    using m assms(4) unfolding q by simp_all
  ultimately show ?thesis
    by blast
qed

lemma pg_ulltoa_n_100_written:
  assumes "written n a L i h0 h" "unat value2 = n div 10 ^ i" "1 \<le> unat value2"
    "unat value2 < 10000"
  shows "\<exists>v' i' h'. pg_ulltoa_n_100 a (int L) value2 (int i) h = Some (v', int i', h') \<and>
          written n a L i' h0 h' \<and> unat v' = n div 10 ^ i' \<and> 1 \<le> unat v' \<and>
          unat v' < 100"
proof (cases "100 \<le> value2")
  case False
  then have "unat value2 < 100"
    by (simp add: word_le_nat_alt)
  moreover have "pg_ulltoa_n_100 a (int L) value2 (int i) h = Some (value2, int i, h)"
    using False by (simp add: pg_ulltoa_n_100_def)
  ultimately show ?thesis
    using assms by blast
next
  case True
  let ?m = "unat value2"
  have m: "100 \<le> ?m"
    using True by (simp add: word_le_nat_alt)
  have c0: "unat (value2 mod 100) = ?m mod 100"
    by (simp add: unat_mod)
  have o0: "unat (push_bit 1 (value2 mod 100)) = 2 * (?m mod 100)"
    by (subst unat_push_bit_1) (simp_all add: c0)
  have x0: "?m mod 100 = n div 10 ^ i mod 100"
    by (simp only: assms(2))
  obtain h1 where h1: "memcpy (a + int L - int i - 2) DIGIT_TABLE (2 * (?m mod 100)) 2 h = Some h1"
      "written n a L (i + 2) h0 h1"
    using written_pair [OF assms(1) x0] by blast
  have pos: "int i + 2 = int (i + 2)"
    by simp
  have "pg_ulltoa_n_100 a (int L) value2 (int i) h = Some (value2 div 100, int (i + 2), h1)"
    using h1(1)
    by (simp only: pg_ulltoa_n_100_def True if_True Let_def o0 bind.bind_lunit pos)
  moreover have q: "unat (value2 div 100) = ?m div 100"
    by (simp add: unat_div)
  have "unat (value2 div 100) = n div 10 ^ (i + 2)"
    unfolding q assms(2) using div_pow_add [of n i 2] by simp
  moreover have "1 \<le> unat (value2 div 100)" "unat (value2 div 100) < 100"
    using m assms(4) unfolding q by simp_all
  ultimately show ?thesis
    using h1(2) by blast
qed

lemma digits_at_div:
  assumes "digits_at (n div 10 ^ i) k"
  shows "digits_at n (k + i)"
proof -
  have k: "1 \<le> k" "10 ^ (k - 1) \<le> n div 10 ^ i" "n div 10 ^ i < 10 ^ k"
    using assms by (simp_all add: digits_at_def)
  obtain j where j: "k = Suc j"
    using k(1) by (cases k) auto
  have "10 ^ j * 10 ^ i \<le> n"
    using k(2) by (simp add: less_eq_div_iff_mult_less_eq j)
  moreover have "n < 10 ^ k * 10 ^ i"
    using k(3) by (simp add: div_less_iff_less_mult)
  ultimately show ?thesis
    by (simp add: digits_at_def power_add j)
qed

lemma pg_ulltoa_n_10_written:
  assumes "written n a L i h0 h" "unat value2 = n div 10 ^ i" "1 \<le> unat value2"
    "unat value2 < 100" "digits_at n L"
  shows "\<exists>h'. pg_ulltoa_n_10 a (int L) value2 (int i) h = Some h' \<and> written n a L L h0 h'"
proof (cases "10 \<le> value2")
  case True
  let ?m = "unat value2"
  have m: "10 \<le> ?m"
    using True by (simp add: word_le_nat_alt)
  then have "digits_at (n div 10 ^ i) 2"
    using assms(4) by (simp add: digits_at_def assms(2) [symmetric])
  then have L: "L = i + 2"
    using digits_at_unique [OF assms(5) digits_at_div] by fastforce
  have o0: "unat (push_bit 1 value2) = 2 * ?m"
    by (subst unat_push_bit_1) (simp_all add: assms(4))
  have x0: "?m = n div 10 ^ i mod 100"
    using assms(4) by (simp add: assms(2) [symmetric])
  obtain h1 where h1: "memcpy (a + int L - int i - 2) DIGIT_TABLE (2 * ?m) 2 h = Some h1"
      "written n a L (i + 2) h0 h1"
    using written_pair [OF assms(1) x0] by blast
  have "pg_ulltoa_n_10 a (int L) value2 (int i) h = Some h1"
    using h1(1) by (simp only: pg_ulltoa_n_10_def True if_True Let_def o0)
  then show ?thesis
    using h1(2) unfolding L by blast
next
  case False
  let ?m = "unat value2"
  have m: "?m < 10"
    using False by (simp add: word_le_nat_alt)
  then have "digits_at (n div 10 ^ i) 1"
    using assms(3) by (simp add: digits_at_def assms(2) [symmetric])
  then have L: "L = Suc i"
    using digits_at_unique [OF assms(5) digits_at_div] by fastforce
  have "unat (of_char CHR ''0'' + value2) = (48 + ?m) mod 2 ^ 32"
    by (simp add: unat_word_ariths)
  then have "unat (of_char CHR ''0'' + value2) = 48 + ?m"
    using m by simp
  then have "pg_ulltoa_n_10 a (int L) value2 (int i) h = Some (store a (digit_char ?m) h)"
    using False by (simp add: pg_ulltoa_n_10_def digit_char_def)
  moreover have "written n a (Suc i) (Suc i) h0 (store a (digit_char ?m) h)"
    using written_last [OF assms(1) [unfolded L] assms(2) m] .
  ultimately show ?thesis
    unfolding L by blast
qed

lemma pg_ulltoa_n_written:
  assumes "v \<noteq> 0" "digits_at (unat v) L"
  shows "\<exists>h'. pg_ulltoa_n cfg v a h = Some (int L, h') \<and> written (unat v) a L L h h'"
proof -
  let ?n = "unat v"
  have len: "decimalLength64 cfg v = Some (int L)"
    using assms by (rule decimalLength64_digits)
  have n: "1 \<le> ?n"
    using assms(1) by (simp add: unat_gt_0 Suc_le_eq)
  have w0: "written ?n a L 0 h h"
    by (rule written_init)
  have v0: "unat v = ?n div 10 ^ 0"
    by simp
  obtain v1 i1 h1 where 1: "pg_ulltoa_n_loop a (int L) v (int 0) h = Some (v1, int i1, h1)"
      "written ?n a L i1 h h1" "unat v1 = ?n div 10 ^ i1" "1 \<le> unat v1" "unat v1 < 100000000"
    using pg_ulltoa_n_loop_written [OF w0 v0 n] by blast
  have "unat v1 < 2 ^ 32"
    using 1(5) by simp
  then have u: "unat (ucast v1 :: uint32_t) = unat v1"
    by (rule unat_ucast_64_32)
  obtain v2 i2 h2 where 2: "pg_ulltoa_n_10000 a (int L) (ucast v1) (int i1) h1 = Some (v2, int i2, h2)"
      "written ?n a L i2 h h2" "unat v2 = ?n div 10 ^ i2" "1 \<le> unat v2" "unat v2 < 10000"
    using pg_ulltoa_n_10000_written [OF 1(2), of "ucast v1"] 1(3,4,5) unfolding u by blast
  obtain v3 i3 h3 where 3: "pg_ulltoa_n_100 a (int L) v2 (int i2) h2 = Some (v3, int i3, h3)"
      "written ?n a L i3 h h3" "unat v3 = ?n div 10 ^ i3" "1 \<le> unat v3" "unat v3 < 100"
    using pg_ulltoa_n_100_written [OF 2(2,3,4,5)] by blast
  obtain h4 where 4: "pg_ulltoa_n_10 a (int L) v3 (int i3) h3 = Some h4" "written ?n a L L h h4"
    using pg_ulltoa_n_10_written [OF 3(2,3,4,5) assms(2)] by blast
  have "pg_ulltoa_n cfg v a h = Some (int L, h4)"
    using assms(1) len 1(1) 2(1) 3(1) 4(1) by (simp add: pg_ulltoa_n_def)
  then show ?thesis
    using 4(2) by blast
qed

lemma pg_ulltoa_n_zero: "pg_ulltoa_n cfg 0 a h = Some (1, store a CHR ''0'' h)"
  by (simp add: pg_ulltoa_n_def)

subsection \<open>The canonical decimal text\<close>

lemma decimal_less_10: "n < 10 \<Longrightarrow> decimal n = [digit_char n]"
  by (subst decimal.simps) simp

lemma decimal_ge_10: "10 \<le> n \<Longrightarrow> decimal n = decimal (n div 10) @ [digit_char (n mod 10)]"
  by (subst decimal.simps) simp

lemma digits_at_pos: "digits_at n L \<Longrightarrow> 1 \<le> n"
proof -
  assume "digits_at n L"
  moreover have "1 \<le> (10::nat) ^ (L - 1)"
    by simp
  ultimately show ?thesis
    unfolding digits_at_def by linarith
qed

lemma decimal_digits:
  assumes "digits_at n L"
  shows "decimal n = map (\<lambda>j. digit_char (n div 10 ^ (L - 1 - j) mod 10)) [0..<L]"
  using assms
proof (induction n arbitrary: L rule: decimal.induct)
  case (1 n)
  show ?case
  proof (cases "n < 10")
    case True
    have "1 \<le> n"
      using "1.prems" by (rule digits_at_pos)
    then have "digits_at n 1"
      using True by (simp add: digits_at_def)
    then have "L = 1"
      using "1.prems" digits_at_unique by blast
    then show ?thesis
      using True by (simp add: decimal_less_10)
  next
    case False
    then have ge: "10 \<le> n" by simp
    have "1 \<le> n div 10"
      using ge by (simp add: less_eq_div_iff_mult_less_eq)
    then obtain k where k: "digits_at (n div 10) k"
      using digits_at_exists by blast
    have "digits_at n (k + 1)"
      using digits_at_div [of n 1 k] k by simp
    then have L: "L = Suc k"
      using "1.prems" digits_at_unique by fastforce
    have IH: "decimal (n div 10) = map (\<lambda>j. digit_char (n div 10 div 10 ^ (k - 1 - j) mod 10)) [0..<k]"
      using "1.IH" [OF False k] .
    have "n div 10 div 10 ^ (k - 1 - j) = n div 10 ^ (Suc k - 1 - j)" if "j < k" for j
    proof -
      have "Suc k - 1 - j = Suc (k - 1 - j)"
        using that by simp
      then show ?thesis
        by (simp add: div_mult2_eq)
    qed
    then have "map (\<lambda>j. digit_char (n div 10 div 10 ^ (k - 1 - j) mod 10)) [0..<k] =
        map (\<lambda>j. digit_char (n div 10 ^ (Suc k - 1 - j) mod 10)) [0..<k]"
      by simp
    then show ?thesis
      unfolding L decimal_ge_10 [OF ge] IH by simp
  qed
qed

lemma length_decimal: "digits_at n L \<Longrightarrow> length (decimal n) = L"
  by (simp add: decimal_digits)

lemma written_read_buf:
  assumes "written n a L L h0 h" "digits_at n L"
  shows "read_buf h a L = decimal n"
proof -
  have "bytes h (a + int j) = digit_char (n div 10 ^ (L - 1 - j) mod 10)" if "j < L" for j
  proof -
    have "L - 1 - j < L" "a + int L - 1 - int (L - 1 - j) = a + int j"
      using that by simp_all
    then show ?thesis
      using assms(1) unfolding written_def by metis
  qed
  then show ?thesis
    unfolding decimal_digits [OF assms(2)] read_buf_def by simp
qed

lemma written_frame:
  assumes "written n a L L h0 h" "p < a \<or> a + int L \<le> p"
  shows "bytes h p = bytes h0 p"
proof -
  have "\<forall>p. p < a + int L - int L \<or> a + int L \<le> p \<longrightarrow> bytes h p = bytes h0 p"
    using assms(1) unfolding written_def by blast
  then show ?thesis
    using assms(2) by auto
qed

lemma written_stores:
  assumes "written n a L L h0 h"
  shows "\<exists>ws. stores h = ws @ stores h0 \<and> length ws = L \<and> set ws = {a ..< a + int L}"
  using assms unfolding written_def by simp

lemma is_digit_digit_char: "d < 10 \<Longrightarrow> is_digit (digit_char d)"
proof -
  assume "d < 10"
  then have "d = 0 \<or> d = 1 \<or> d = 2 \<or> d = 3 \<or> d = 4 \<or> d = 5 \<or> d = 6 \<or> d = 7 \<or> d = 8 \<or> d = 9"
    by arith
  then show ?thesis
    by (auto simp: is_digit_def digit_char_numerals digit_char_Suc_0)
qed

lemma of_char_digit_char: "d < 10 \<Longrightarrow> of_char (digit_char d) = 48 + d"
  by (simp add: digit_char_def)

lemma decimal_all_digits: "list_all is_digit (decimal n)"
proof (induction n rule: decimal.induct)
  case (1 n)
  show ?case
  proof (cases "n < 10")
    case True
    then show ?thesis by (simp add: is_digit_digit_char decimal_less_10)
  next
    case False
    then show ?thesis
      using "1.IH" by (simp add: decimal_ge_10 is_digit_digit_char)
  qed
qed



lemma decimal_nonempty: "decimal n \<noteq> []"
  by (subst decimal.simps) simp

lemma digit_char_eq_0: "d < 10 \<Longrightarrow> digit_char d = CHR ''0'' \<Longrightarrow> d = 0"
proof -
  assume "d < 10" "digit_char d = CHR ''0''"
  then have "of_char (digit_char d) = (of_char CHR ''0'' :: nat)" by simp
  then show "d = 0" using \<open>d < 10\<close> by (simp add: of_char_digit_char)
qed

lemma hd_decimal: "0 < n \<Longrightarrow> hd (decimal n) \<noteq> CHR ''0''"
proof (induction n rule: decimal.induct)
  case (1 n)
  show ?case
  proof (cases "n < 10")
    case True
    then show ?thesis
      using "1.prems" digit_char_eq_0 [of n] by (auto simp add: decimal_less_10)
  next
    case False
    then have "0 < n div 10" by simp
    then show ?thesis
      using "1.IH" False
      by (simp add: decimal_ge_10 decimal_nonempty)
  qed
qed


lemma digits_at_decimal: "1 \<le> n \<Longrightarrow> digits_at n (length (decimal n))"
proof -
  assume "1 \<le> n"
  then obtain d where d: "digits_at n d"
    using digits_at_exists by blast
  then show ?thesis
    by (simp only: length_decimal [OF d])
qed

lemma pg_ulltoa_n_spec:
  "\<exists>h'. pg_ulltoa_n cfg v a h = Some (int (length (decimal (unat v))), h') \<and>
     read_buf h' a (length (decimal (unat v))) = decimal (unat v) \<and>
     (\<forall>p. p < a \<or> a + int (length (decimal (unat v))) \<le> p \<longrightarrow> bytes h' p = bytes h p) \<and>
     (\<exists>ws. stores h' = ws @ stores h \<and> length ws = length (decimal (unat v)) \<and>
           set ws = {a ..< a + int (length (decimal (unat v)))})"
proof (cases "v = 0")
  case True
  have "stores (store a CHR ''0'' h) = [a] @ stores h \<and> length [a] = 1 \<and> set [a] = {a ..< a + 1}"
    by (auto simp: store_def)
  then show ?thesis
    unfolding True
    by (auto simp: pg_ulltoa_n_zero read_buf_def store_def digit_char_numerals decimal_less_10)
next
  case False
  let ?n = "unat v"
  let ?L = "length (decimal ?n)"
  have "1 \<le> ?n"
    using False by (simp add: unat_gt_0 Suc_le_eq)
  then have d: "digits_at ?n ?L"
    by (rule digits_at_decimal)
  obtain h' where h': "pg_ulltoa_n cfg v a h = Some (int ?L, h')" "written ?n a ?L ?L h h'"
    using pg_ulltoa_n_written [OF False d] by blast
  show ?thesis
    using h'(1) written_read_buf [OF h'(2) d] written_frame [OF h'(2)] written_stores [OF h'(2)]
    by blast
qed


section \<open>\<^verbatim>\<open>pg_lltoa\<close>: sign, digits, terminator\<close>

lemma read_buf_Suc: "read_buf h a (Suc n) = bytes h a # read_buf h (a + 1) n"
proof -
  have "[0..<Suc n] = 0 # map Suc [0..<n]"
    by (simp add: upt_conv_Cons map_Suc_upt del: upt_Suc)
  then show ?thesis
    by (simp add: read_buf_def comp_def add.assoc del: upt_Suc)
qed

lemma read_buf_snoc: "read_buf h a (Suc n) = read_buf h a n @ [bytes h (a + int n)]"
  by (simp add: read_buf_def)

lemma read_buf_cong:
  assumes "\<And>p. a \<le> p \<Longrightarrow> p < a + int n \<Longrightarrow> bytes h p = bytes h' p"
  shows "read_buf h a n = read_buf h' a n"
  using assms by (simp add: read_buf_def)

lemma uint_of_sint:
  fixes v :: int64_t
  shows "uint v = sint v mod 2 ^ 64"
  by (simp add: uint_sint take_bit_eq_mod)

lemma sint_range:
  fixes v :: int64_t
  shows "- (2 ^ 63) \<le> sint v" "sint v < 2 ^ 63"
  using sint_ge [of v] sint_lt [of v] by simp_all

lemma unat_neg:
  fixes v :: int64_t
  assumes "sint v < 0"
  shows "unat (0 - v) = nat \<bar>sint v\<bar>" and "0 - v \<noteq> 0"
proof -
  have "uint (0 - v) = (- uint v) mod 2 ^ 64"
    by (simp add: uint_word_ariths)
  also have "\<dots> = (- sint v) mod 2 ^ 64"
    unfolding uint_of_sint by (simp add: mod_minus_eq)
  also have "\<dots> = - sint v"
    using assms sint_range(1) [of v] by simp
  finally have u: "uint (0 - v) = - sint v" .
  then show "unat (0 - v) = nat \<bar>sint v\<bar>"
    using assms by (simp add: unat_eq_nat_uint del: diff_0)
  show "0 - v \<noteq> 0"
    using u assms by (metis less_irrefl neg_equal_0_iff_equal uint_0_eq)
qed

lemma unat_nonneg:
  fixes v :: int64_t
  assumes "\<not> sint v < 0"
  shows "unat v = nat \<bar>sint v\<bar>"
proof -
  have "uint v = sint v"
    unfolding uint_of_sint using assms sint_range(2) [of v] by simp
  then show ?thesis
    using assms by (simp add: unat_eq_nat_uint)
qed

lemma pg_lltoa_spec:
  defines "txt v \<equiv> (if sint v < 0 then ''-'' else '''') @ decimal (nat \<bar>sint v\<bar>)"
  shows "\<exists>h'. pg_lltoa cfg v a h = Some (int (length (txt v)), h') \<and>
     read_buf h' a (length (txt v)) = txt v \<and>
     bytes h' (a + int (length (txt v))) = CHR 0x00 \<and>
     (\<forall>p. p < a \<or> a + int (length (txt v)) < p \<longrightarrow> bytes h' p = bytes h p) \<and>
     (\<exists>ws. stores h' = ws @ stores h \<and> length ws = length (txt v) + 1 \<and>
           set ws = {a .. a + int (length (txt v))})"
proof (cases "sint v < 0")
  case True
  let ?u = "0 - v"
  let ?d = "decimal (nat \<bar>sint v\<bar>)"
  let ?L = "length ?d"
  let ?h1 = "store a CHR ''-'' h"
  have u: "unat ?u = nat \<bar>sint v\<bar>"
    using True by (rule unat_neg)
  obtain h2 where h2: "pg_ulltoa_n cfg ?u (a + 1) ?h1 = Some (int ?L, h2)"
      "read_buf h2 (a + 1) ?L = ?d"
      "\<And>p. p < a + 1 \<or> a + 1 + int ?L \<le> p \<Longrightarrow> bytes h2 p = bytes ?h1 p"
      "\<exists>ws. stores h2 = ws @ stores ?h1 \<and> length ws = ?L \<and> set ws = {a + 1 ..< a + 1 + int ?L}"
    using pg_ulltoa_n_spec [of cfg ?u "a + 1" ?h1] unfolding u by blast
  let ?h3 = "store (a + (1 + int ?L)) (CHR 0x00) h2"
  have run: "pg_lltoa cfg v a h = Some (1 + int ?L, ?h3)"
    using True h2(1) by (simp add: pg_lltoa_def Let_def)
  have t: "txt v = CHR ''-'' # ?d"
    using True by (simp add: txt_def)
  have "bytes ?h3 a = CHR ''-''"
    using h2(3) [of a] by (simp add: store_def)
  moreover have "read_buf ?h3 (a + 1) ?L = read_buf h2 (a + 1) ?L"
    by (rule read_buf_cong) (simp add: store_def)
  ultimately have rd: "read_buf ?h3 a (Suc ?L) = CHR ''-'' # ?d"
    by (simp only: read_buf_Suc h2(2))
  have fr: "bytes ?h3 p = bytes h p" if "p < a \<or> a + int (Suc ?L) < p" for p
    using that h2(3) [of p] by (auto simp: store_def)
  obtain ws where ws: "stores h2 = ws @ stores ?h1" "length ws = ?L"
      "set ws = {a + 1 ..< a + 1 + int ?L}"
    using h2(4) by blast
  have "stores ?h3 = ((a + (1 + int ?L)) # ws @ [a]) @ stores h \<and>
      length ((a + (1 + int ?L)) # ws @ [a]) = Suc ?L + 1 \<and>
      set ((a + (1 + int ?L)) # ws @ [a]) = {a .. a + int (Suc ?L)}"
    using ws by (auto simp: store_def)
  then have st: "\<exists>ws. stores ?h3 = ws @ stores h \<and> length ws = Suc ?L + 1 \<and>
      set ws = {a .. a + int (Suc ?L)}"
    by blast
  have "bytes ?h3 (a + int (Suc ?L)) = CHR 0x00"
    by (simp add: store_def)
  moreover have "length (txt v) = Suc ?L" "1 + int ?L = int (Suc ?L)"
    by (simp_all add: t)
  ultimately show ?thesis
    using run rd fr st unfolding t by (metis (no_types, lifting) length_Cons)
next
  case False
  let ?d = "decimal (nat \<bar>sint v\<bar>)"
  let ?L = "length ?d"
  have u: "unat v = nat \<bar>sint v\<bar>"
    using False by (rule unat_nonneg)
  obtain h2 where h2: "pg_ulltoa_n cfg v a h = Some (int ?L, h2)"
      "read_buf h2 a ?L = ?d"
      "\<And>p. p < a \<or> a + int ?L \<le> p \<Longrightarrow> bytes h2 p = bytes h p"
      "\<exists>ws. stores h2 = ws @ stores h \<and> length ws = ?L \<and> set ws = {a ..< a + int ?L}"
    using pg_ulltoa_n_spec [of cfg v a h] unfolding u by blast
  let ?h3 = "store (a + int ?L) (CHR 0x00) h2"
  have run: "pg_lltoa cfg v a h = Some (int ?L, ?h3)"
    using False h2(1) by (simp add: pg_lltoa_def Let_def)
  have t: "txt v = ?d"
    using False by (simp add: txt_def)
  have "read_buf ?h3 a ?L = read_buf h2 a ?L"
    by (rule read_buf_cong) (simp add: store_def)
  then have rd: "read_buf ?h3 a ?L = ?d"
    by (simp only: h2(2))
  have fr: "bytes ?h3 p = bytes h p" if "p < a \<or> a + int ?L < p" for p
    using that h2(3) [of p] by (auto simp: store_def)
  obtain ws where ws: "stores h2 = ws @ stores h" "length ws = ?L"
      "set ws = {a ..< a + int ?L}"
    using h2(4) by blast
  have "stores ?h3 = ((a + int ?L) # ws) @ stores h \<and>
      length ((a + int ?L) # ws) = ?L + 1 \<and>
      set ((a + int ?L) # ws) = {a .. a + int ?L}"
    using ws by (auto simp: store_def)
  then have st: "\<exists>ws. stores ?h3 = ws @ stores h \<and> length ws = ?L + 1 \<and>
      set ws = {a .. a + int ?L}"
    by blast
  have "bytes ?h3 (a + int ?L) = CHR 0x00"
    by (simp add: store_def)
  then show ?thesis
    using run rd fr st unfolding t by blast
qed


lemma is_digit_not_NUL: "is_digit c \<Longrightarrow> c \<noteq> CHR 0x00"
  by (auto simp: is_digit_def)

lemma decimal_no_NUL: "CHR 0x00 \<notin> set (decimal n)"
  using decimal_all_digits [of n] is_digit_not_NUL by (auto simp: list_all_iff)

section \<open>The table lookups the code performs\<close>

lemma memcpy_DIGIT_TABLE_pair:
  assumes "n < 100"
  shows "memcpy dst DIGIT_TABLE (2 * n) 2 h =
    Some (store (dst + 1) (digit_char (n mod 10)) (store dst (digit_char (n div 10)) h))"
  by (simp add: memcpy_2 DIGIT_TABLE_pair [OF assms])

lemma pg_ulltoa_n_10000_step:
  assumes "10000 \<le> value2"
  shows "pg_ulltoa_n_10000 a ol value2 i h =
    do { h \<leftarrow> memcpy (a + ol - i - 2) DIGIT_TABLE (2 * (unat value2 mod 100)) 2 h;
         h \<leftarrow> memcpy (a + ol - i - 4) DIGIT_TABLE (2 * (unat value2 div 10 ^ 2 mod 100)) 2 h;
         Some (value2 div 10000, i + 4, h) }"
proof -
  let ?m = "unat value2"
  have c: "unat (value2 mod 10000) = ?m mod 10000"
    by (simp add: unat_mod)
  have c0: "unat (value2 mod 10000 mod 100) = ?m mod 100"
    by (simp add: unat_mod mod_mod_cancel)
  have "?m mod (100 * 100) div 100 = ?m div 100 mod 100"
    by (rule mod_mult_div)
  then have c1: "unat (value2 mod 10000 div 100) = ?m div 10 ^ 2 mod 100"
    by (simp add: unat_div c)
  have o0: "unat (push_bit 1 (value2 mod 10000 mod 100)) = 2 * (?m mod 100)"
    by (subst unat_push_bit_1) (simp_all add: c0)
  have o1: "unat (push_bit 1 (value2 mod 10000 div 100)) = 2 * (?m div 10 ^ 2 mod 100)"
    by (subst unat_push_bit_1) (simp_all add: c1)
  show ?thesis
    by (simp only: pg_ulltoa_n_10000_def assms if_True Let_def word_sub_mult_div o0 o1)
qed

lemma pg_ulltoa_n_100_step:
  assumes "100 \<le> value2"
  shows "pg_ulltoa_n_100 a ol value2 i h =
    do { h \<leftarrow> memcpy (a + ol - i - 2) DIGIT_TABLE (2 * (unat value2 mod 100)) 2 h;
         Some (value2 div 100, i + 2, h) }"
proof -
  have c0: "unat (value2 mod 100) = unat value2 mod 100"
    by (simp add: unat_mod)
  have o0: "unat (push_bit 1 (value2 mod 100)) = 2 * (unat value2 mod 100)"
    by (subst unat_push_bit_1) (simp_all add: c0)
  show ?thesis
    by (simp only: pg_ulltoa_n_100_def assms if_True Let_def o0)
qed

lemma pg_ulltoa_n_10_step:
  assumes "10 \<le> value2" "value2 < 100"
  shows "pg_ulltoa_n_10 a ol value2 i h =
    memcpy (a + ol - i - 2) DIGIT_TABLE (2 * unat value2) 2 h"
proof -
  have "unat value2 < 100"
    using assms(2) by (simp add: word_less_nat_alt)
  then have o0: "unat (push_bit 1 value2) = 2 * unat value2"
    by (rule unat_push_bit_1)
  show ?thesis
    by (simp only: pg_ulltoa_n_10_def assms(1) if_True Let_def o0)
qed

text \<open>The blocks of \<^verbatim>\<open>pg_ulltoa_n\<close> in sequence, with the value each one hands on.\<close>

lemma pg_ulltoa_n_chain:
  assumes "v \<noteq> 0"
  shows "\<exists>ol v1 i1 h1 v2 i2 h2 v3 i3 h3 h4.
      decimalLength64 cfg v = Some ol \<and>
      pg_ulltoa_n_loop a ol v 0 h = Some (v1, i1, h1) \<and> v1 < 100000000 \<and>
      pg_ulltoa_n_10000 a ol (ucast v1) i1 h1 = Some (v2, i2, h2) \<and> v2 < 10000 \<and>
      pg_ulltoa_n_100 a ol v2 i2 h2 = Some (v3, i3, h3) \<and> v3 < 100 \<and>
      pg_ulltoa_n_10 a ol v3 i3 h3 = Some h4 \<and>
      pg_ulltoa_n cfg v a h = Some (ol, h4)"
proof -
  let ?n = "unat v"
  let ?L = "length (decimal ?n)"
  have n: "1 \<le> ?n"
    using assms by (simp add: unat_gt_0 Suc_le_eq)
  then have d: "digits_at ?n ?L"
    by (rule digits_at_decimal)
  have len: "decimalLength64 cfg v = Some (int ?L)"
    using assms d by (rule decimalLength64_digits)
  have w0: "written ?n a ?L 0 h h"
    by (rule written_init)
  have v0: "unat v = ?n div 10 ^ 0"
    by simp
  obtain v1 i1 h1 where 1: "pg_ulltoa_n_loop a (int ?L) v (int 0) h = Some (v1, int i1, h1)"
      "written ?n a ?L i1 h h1" "unat v1 = ?n div 10 ^ i1" "1 \<le> unat v1" "unat v1 < 100000000"
    using pg_ulltoa_n_loop_written [OF w0 v0 n] by blast
  have "unat v1 < 2 ^ 32"
    using 1(5) by simp
  then have u: "unat (ucast v1 :: uint32_t) = unat v1"
    by (rule unat_ucast_64_32)
  obtain v2 i2 h2 where 2: "pg_ulltoa_n_10000 a (int ?L) (ucast v1) (int i1) h1 = Some (v2, int i2, h2)"
      "written ?n a ?L i2 h h2" "unat v2 = ?n div 10 ^ i2" "1 \<le> unat v2" "unat v2 < 10000"
    using pg_ulltoa_n_10000_written [OF 1(2), of "ucast v1"] 1(3,4,5) unfolding u by blast
  obtain v3 i3 h3 where 3: "pg_ulltoa_n_100 a (int ?L) v2 (int i2) h2 = Some (v3, int i3, h3)"
      "written ?n a ?L i3 h h3" "unat v3 = ?n div 10 ^ i3" "1 \<le> unat v3" "unat v3 < 100"
    using pg_ulltoa_n_100_written [OF 2(2,3,4,5)] by blast
  obtain h4 where 4: "pg_ulltoa_n_10 a (int ?L) v3 (int i3) h3 = Some h4"
    using pg_ulltoa_n_10_written [OF 3(2,3,4,5) d] by blast
  have run: "pg_ulltoa_n cfg v a h = Some (int ?L, h4)"
    using assms len 1(1) 2(1) 3(1) 4 by (simp add: pg_ulltoa_n_def)
  have b: "v1 < 100000000" "v2 < 10000" "v3 < 100"
    using 1(5) 2(5) 3(5) by (simp_all add: word_less_nat_alt)
  have l0: "pg_ulltoa_n_loop a (int ?L) v 0 h = Some (v1, int i1, h1)"
    using 1(1) by simp
  show ?thesis
    using len l0 b(1) 2(1) b(2) 3(1) b(3) 4 run by blast
qed

text \<open>The lookup of line 81: its index is a nonzero byte.\<close>

lemma pg_leftmost_one_pos64_table_lookup:
  assumes "w \<noteq> 0"
  shows "\<exists>shift p. pg_leftmost_one_pos64_loop w (64 - 8) = Some shift \<and>
      1 \<le> unat (drop_bit (nat shift) w AND 255) \<and>
      unat (drop_bit (nat shift) w AND 255) \<le> 255 \<and>
      array_read pg_leftmost_one_pos (unat (drop_bit (nat shift) w AND 255)) = Some p \<and>
      uint p = \<lfloor>log 2 (real (unat (drop_bit (nat shift) w AND 255)))\<rfloor> \<and>
      pg_leftmost_one_pos64_table w = Some (shift + uint p) \<and>
      shift + uint p = \<lfloor>log 2 (real (unat w))\<rfloor>"
proof -
  let ?n = "unat w"
  have "?n < 2 ^ (nat 56 + 8)"
    using unsigned_less [of w] by simp
  then obtain s where s: "pg_leftmost_one_pos64_loop w 56 = Some s" "0 \<le> s" "s < 64"
      "drop_bit (nat s) w \<noteq> 0" "?n < 2 ^ (nat s + 8)"
    using pg_leftmost_one_pos64_loop_msb [OF assms, of 56] by auto
  define b where "b = ?n div 2 ^ nat s"
  have b_lt: "b < 256"
    using s(5) by (simp add: b_def less_mult_imp_div_less power_add mult.commute)
  have drop: "unat (drop_bit (nat s) w) = b"
    by (simp only: b_def unat_drop_bit_eq drop_bit_nat_def)
  have "unat (drop_bit (nat s) w) \<noteq> 0"
    using s(4) by (simp only: unat_eq_0 not_False_eq_True)
  then have b_ge: "1 \<le> b"
    unfolding drop by simp
  have "(255 :: uint64_t) = mask 8"
    by (simp add: mask_eq_exp_minus_1)
  then have "unat (drop_bit (nat s) w AND 255) = unat (take_bit 8 (drop_bit (nat s) w))"
    by (simp only: take_bit_eq_mask)
  also have "\<dots> = b mod 256"
    unfolding unsigned_take_bit_eq drop take_bit_nat_def by simp
  finally have idx: "unat (drop_bit (nat s) w AND 255) = b"
    using b_lt by simp
  define p where "p = pg_leftmost_one_pos ! b"
  have rd: "array_read pg_leftmost_one_pos b = Some p"
    using b_lt by (simp add: array_read_def length_pg_leftmost_one_pos p_def)
  have "msb_at b (unat p)"
    using pg_leftmost_one_pos_bounds [OF b_ge b_lt] by (simp add: msb_at_def p_def)
  then have lg: "uint p = \<lfloor>log 2 (real b)\<rfloor>"
    using msb_at_floor_log by fastforce
  have run: "pg_leftmost_one_pos64_table w = Some (s + uint p)"
    using s(1) rd by (simp add: pg_leftmost_one_pos64_table_def idx)
  obtain q where q: "q < 64" "msb_at ?n q"
    using msb_at_exists [OF assms] by blast
  have "s + uint p = \<lfloor>log 2 (real ?n)\<rfloor>"
    using run pg_leftmost_one_pos64_table_msb [OF q(2)] msb_at_floor_log [OF q(2)] by simp
  moreover have "pg_leftmost_one_pos64_loop w (64 - 8) = Some s"
    using s(1) by simp
  moreover have "b \<le> 255"
    using b_lt by simp
  ultimately show ?thesis
    using b_ge rd lg run unfolding idx [symmetric] by blast
qed

subsection \<open>The digit count over the whole range\<close>

lemma decimalLength64_decimal:
  assumes "v \<noteq> 0"
  shows "decimalLength64 cfg v = Some (int (length (decimal (unat v))))"
proof -
  have "1 \<le> unat v"
    using assms by (simp add: unat_gt_0 Suc_le_eq)
  then have "digits_at (unat v) (length (decimal (unat v)))"
    by (rule digits_at_decimal)
  with assms show ?thesis
    by (rule decimalLength64_digits)
qed

lemma length_decimal_mono:
  assumes "m \<le> n"
  shows "length (decimal m) \<le> length (decimal n)"
proof (cases "m = 0")
  case True
  have "length (decimal 0) = 1"
    by (simp add: decimal_less_10)
  moreover have "1 \<le> length (decimal n)"
    using decimal_nonempty [of n] by (cases "decimal n") auto
  ultimately show ?thesis
    unfolding True by simp
next
  case False
  then have "1 \<le> m" "1 \<le> n"
    using assms by simp_all
  then have "digits_at m (length (decimal m))" "digits_at n (length (decimal n))"
    by (simp_all only: digits_at_decimal)
  then show ?thesis
    using assms by (rule digits_at_mono)
qed

section \<open>The claims\<close>



text \<open>
  C2. For every signed 64-bit value \<open>v\<close>, \<^verbatim>\<open>pg_lltoa(v, buffer)\<close> writes a leading
  \<open>'-'\<close> exactly when \<open>v < 0\<close>, then the canonical decimal digits of \<open>abs(v)\<close>, then a zero
  byte at \<open>buffer[returned length]\<close>, and returns the length of sign plus digits without
  the terminator. The negation is the wrapping unsigned one, so the minimum value is
  covered: \<^verbatim>\<open>pg_lltoa(INT64_MIN)\<close> writes "-9223372036854775808" followed by NUL and
  returns 20.
\<close>

theorem pg_lltoa_sign_digits_terminator:
  "(\<exists>len h'. pg_lltoa cfg v a h = Some (int len, h') \<and>
       read_buf h' a len = (if sint v < 0 then ''-'' else '''') @ decimal (nat \<bar>sint v\<bar>) \<and>
       ((bytes h' a = CHR ''-'') = (sint v < 0)) \<and>
       bytes h' (a + int len) = CHR 0x00) \<and>
   (\<exists>h'. pg_lltoa cfg (- 9223372036854775808) a h = Some (20, h') \<and>
       read_buf h' a 21 = ''-9223372036854775808'' @ [CHR 0x00])"
proof
  let ?t = "(if sint v < 0 then ''-'' else '''') @ decimal (nat \<bar>sint v\<bar>)"
  obtain h' where h': "pg_lltoa cfg v a h = Some (int (length ?t), h')"
      "read_buf h' a (length ?t) = ?t" "bytes h' (a + int (length ?t)) = CHR 0x00"
    using pg_lltoa_spec [of cfg v a h] by blast
  have "?t \<noteq> []"
    by (simp add: decimal_nonempty)
  then obtain k where k: "length ?t = Suc k"
    by (cases ?t) auto
  have "bytes h' a = hd ?t"
    using h'(2) unfolding k read_buf_Suc by (metis list.sel(1))
  moreover have "hd (decimal (nat \<bar>sint v\<bar>)) \<noteq> CHR ''-''"
    using decimal_all_digits [of "nat \<bar>sint v\<bar>"] decimal_nonempty [of "nat \<bar>sint v\<bar>"]
    by (cases "decimal (nat \<bar>sint v\<bar>)") (auto simp: is_digit_def)
  ultimately have "(bytes h' a = CHR ''-'') = (sint v < 0)"
    by (cases "sint v < 0") simp_all
  then show "\<exists>len h'. pg_lltoa cfg v a h = Some (int len, h') \<and>
       read_buf h' a len = ?t \<and> ((bytes h' a = CHR ''-'') = (sint v < 0)) \<and>
       bytes h' (a + int len) = CHR 0x00"
    using h' by blast
next
  let ?v = "- 9223372036854775808 :: int64_t"
  have s: "sint ?v = - 9223372036854775808"
    by simp
  have d: "decimal 9223372036854775808 = ''9223372036854775808''"
    by (simp add: decimal.simps digit_char_numerals digit_char_Suc_0)
  have t: "(if sint ?v < 0 then ''-'' else '''') @ decimal (nat \<bar>sint ?v\<bar>) = ''-9223372036854775808''"
    unfolding s by (simp add: d)
  have l: "length ''-9223372036854775808'' = 20"
    by simp
  have "\<exists>h'. pg_lltoa cfg ?v a h = Some (int (length ''-9223372036854775808''), h') \<and>
      read_buf h' a (length ''-9223372036854775808'') = ''-9223372036854775808'' \<and>
      bytes h' (a + int (length ''-9223372036854775808'')) = CHR 0x00"
    using pg_lltoa_spec [of cfg ?v a h] unfolding t by blast
  then obtain h' where h': "pg_lltoa cfg ?v a h = Some (20, h')"
      "read_buf h' a 20 = ''-9223372036854775808''" "bytes h' (a + 20) = CHR 0x00"
    unfolding l by auto
  have "read_buf h' a (Suc 20) = read_buf h' a 20 @ [bytes h' (a + int 20)]"
    by (rule read_buf_snoc)
  then have "read_buf h' a 21 = read_buf h' a 20 @ [bytes h' (a + 20)]"
    by simp
  then show "\<exists>h'. pg_lltoa cfg ?v a h = Some (20, h') \<and>
       read_buf h' a 21 = ''-9223372036854775808'' @ [CHR 0x00]"
    using h' by simp
qed

theorem pg_lltoa_sign_digits_terminator_witness:
  "\<exists>h'. pg_lltoa clz_build (- 9223372036854775808) 0 blank = Some (20, h') \<and>
       read_buf h' 0 21 = ''-9223372036854775808'' @ [CHR 0x00]"
  using pg_lltoa_sign_digits_terminator [of clz_build 0 0 blank] by blast

text \<open>
  C3. For every unsigned 64-bit value \<open>v \<ge> 1\<close>, \<^verbatim>\<open>decimalLength64(v)\<close> returns the number
  of decimal digits of \<open>v\<close>, the unique \<open>d\<close> with \<open>10^(d-1) \<le> v < 10^d\<close>, and the result
  lies in \<open>[1, 20]\<close>.
\<close>

theorem decimalLength64_exact:
  assumes "1 \<le> v"
  shows "\<exists>d. decimalLength64 cfg v = Some (int d) \<and>
           10 ^ (d - 1) \<le> unat v \<and> unat v < 10 ^ d \<and> 1 \<le> d \<and> d \<le> 20 \<and>
           (\<forall>e. 10 ^ (e - 1) \<le> unat v \<and> unat v < 10 ^ e \<longrightarrow> e = d)"
proof -
  have n: "1 \<le> unat v"
    using assms by (simp add: word_le_nat_alt)
  then have nz: "v \<noteq> 0"
    by auto
  obtain d where d: "digits_at (unat v) d"
    using digits_at_exists [OF n] by blast
  have "e = d" if "10 ^ (e - 1) \<le> unat v \<and> unat v < 10 ^ e" for e
  proof -
    have "e \<noteq> 0"
      using that n by (cases e) auto
    then have "digits_at (unat v) e"
      using that by (simp add: digits_at_def)
    then show ?thesis
      using d digits_at_unique by blast
  qed
  then show ?thesis
    using decimalLength64_digits [OF nz d, of cfg] digits_at_le_20 [OF d] d
    unfolding digits_at_def by blast
qed

theorem decimalLength64_exact_witness:
  "(1::uint64_t) \<le> 12345 \<and> decimalLength64 table_build 12345 = Some 5"
proof -
  have le: "(1::uint64_t) \<le> 12345"
    by simp
  obtain d where d: "decimalLength64 table_build 12345 = Some (int d)"
      "\<forall>e. 10 ^ (e - 1) \<le> unat (12345 :: uint64_t) \<and> unat (12345 :: uint64_t) < 10 ^ e \<longrightarrow> e = d"
    using decimalLength64_exact [OF le, of table_build] by blast
  have "(10::nat) ^ (5 - 1) \<le> unat (12345 :: uint64_t) \<and> unat (12345 :: uint64_t) < 10 ^ 5"
    by simp
  then have "5 = d"
    using d(2) by blast
  then show ?thesis
    using d(1) le by simp
qed

text \<open>
  C4, as amended. For every unsigned 64-bit value \<open>v \<ge> 1\<close>, the estimate
  \<open>t = (pg_leftmost_one_pos64(v) + 1) * 1233 / 4096\<close> of line 107 satisfies
  \<open>floor(log10 v) \<le> t \<le> floor(log10 v) + 1\<close>: it never underestimates
  \<open>floor(log10 v)\<close> and is at most one above it, so the single correction
  \<open>t + (v \<ge> 10^t)\<close> is the exact digit count \<open>floor(log10 v) + 1\<close>.
\<close>

theorem decimalLength64_t_within_one:
  assumes "1 \<le> v"
  shows "\<exists>t. decimalLength64_t cfg v = Some (int t) \<and>
           \<lfloor>log 10 (real (unat v))\<rfloor> \<le> int t \<and>
           int t \<le> \<lfloor>log 10 (real (unat v))\<rfloor> + 1 \<and>
           decimalLength64 cfg v = Some (int (t + (if 10 ^ t \<le> unat v then 1 else 0))) \<and>
           int (t + (if 10 ^ t \<le> unat v then 1 else 0)) = \<lfloor>log 10 (real (unat v))\<rfloor> + 1"
proof -
  have "v \<noteq> 0"
    using assms by auto
  then obtain p where p: "p < 64" "msb_at (unat v) p"
    using msb_at_exists by blast
  define t where "t = (p + 1) * 1233 div 4096"
  have 1: "decimalLength64_t cfg v = Some (int t)"
    using decimalLength64_t_msb [OF p(2,1)] by (simp only: t_def)
  have 2: "decimalLength64 cfg v = Some (int (t + (if 10 ^ t \<le> unat v then 1 else 0)))"
    using decimalLength64_msb(1) [OF p(2,1)] by (simp only: t_def)
  have "digits_at (unat v) (t + (if 10 ^ t \<le> unat v then 1 else 0))"
    using decimalLength64_msb(2) [OF p(2,1)] by (simp only: t_def)
  then have 3: "\<lfloor>log 10 (real (unat v))\<rfloor> = int (t + (if 10 ^ t \<le> unat v then 1 else 0)) - 1"
    by (rule digits_at_floor_log)
  have "\<lfloor>log 10 (real (unat v))\<rfloor> \<le> int t" "int t \<le> \<lfloor>log 10 (real (unat v))\<rfloor> + 1"
    unfolding 3 by simp_all
  then show ?thesis
    using 1 2 3 by auto
qed

theorem decimalLength64_t_within_one_witness:
  "(1::uint64_t) \<le> 8 \<and> decimalLength64_t clz_build 8 = Some 1 \<and>
   \<lfloor>log 10 (real (unat (8 :: uint64_t)))\<rfloor> = 0 \<and> decimalLength64 clz_build 8 = Some 1"
proof -
  have le: "(1::uint64_t) \<le> 8"
    by simp
  obtain t where t: "decimalLength64_t clz_build 8 = Some (int t)"
      "\<lfloor>log 10 (real (unat (8 :: uint64_t)))\<rfloor> \<le> int t"
      "decimalLength64 clz_build 8 = Some (int (t + (if 10 ^ t \<le> unat (8 :: uint64_t) then 1 else 0)))"
      "int (t + (if 10 ^ t \<le> unat (8 :: uint64_t) then 1 else 0)) =
         \<lfloor>log 10 (real (unat (8 :: uint64_t)))\<rfloor> + 1"
    using decimalLength64_t_within_one [OF le, of clz_build] by blast
  have "msb_at (unat (8 :: uint64_t)) 3"
    by (simp add: msb_at_def)
  then have "decimalLength64_t clz_build 8 = Some (int ((3 + 1) * 1233 div 4096))"
    by (rule decimalLength64_t_msb) simp
  then have "t = 1"
    using t(1) by simp
  then show ?thesis
    using t le by simp
qed

text \<open>
  C4 as stated claims \<open>t \<le> floor(log10 v)\<close>. At \<open>v = 8\<close> the most significant bit is
  bit 3, so \<open>t = 4 * 1233 / 4096 = 1\<close>, while \<open>floor(log10 8) = 0\<close>: the estimate is above
  the logarithm.
\<close>

theorem decimalLength64_t_above_log10_at_8:
  "decimalLength64_t clz_build 8 = Some 1 \<and> decimalLength64_t table_build 8 = Some 1 \<and>
   \<lfloor>log 10 (real (unat (8 :: uint64_t)))\<rfloor> = 0 \<and>
   \<not> (1 \<le> \<lfloor>log 10 (real (unat (8 :: uint64_t)))\<rfloor>)"
proof -
  have "msb_at (unat (8 :: uint64_t)) 3"
    by (simp add: msb_at_def)
  then have "decimalLength64_t cfg 8 = Some (int ((3 + 1) * 1233 div 4096))" for cfg
    by (rule decimalLength64_t_msb) simp
  then have t: "decimalLength64_t cfg 8 = Some 1" for cfg
    by simp
  have "\<lfloor>log 10 (real (unat (8 :: uint64_t)))\<rfloor> = 0"
    using floor_log_nat_eq_if [of 10 0 8] by simp
  then show ?thesis
    using t by simp
qed

text \<open>
  C5. For every nonzero 64-bit word \<open>w\<close>, the builtin bodies
  \<open>63 - leading_zero_count(w)\<close> and the byte-at-a-time table body of
  \<^verbatim>\<open>pg_leftmost_one_pos64\<close> return the same result, whichever the build selects, and
  it is \<open>floor(log2 w)\<close>, a value in \<open>[0, 63]\<close>.
\<close>

theorem pg_leftmost_one_pos64_paths_agree:
  assumes "w \<noteq> 0"
  shows "\<exists>p. pg_leftmost_one_pos64_clzl w = Some p \<and>
             pg_leftmost_one_pos64_clzll w = Some p \<and>
             pg_leftmost_one_pos64_table w = Some p \<and>
             pg_leftmost_one_pos64 cfg w = Some p \<and>
             p = \<lfloor>log 2 (real (unat w))\<rfloor> \<and> 0 \<le> p \<and> p \<le> 63"
proof -
  obtain p where p: "p < 64" "msb_at (unat w) p"
    using msb_at_exists [OF assms] by blast
  show ?thesis
    using p(1) msb_at_floor_log [OF p(2)] pg_leftmost_one_pos64_clzl_msb [OF p(2,1)]
      pg_leftmost_one_pos64_clzll_msb [OF p(2,1)] pg_leftmost_one_pos64_table_msb [OF p(2)]
      pg_leftmost_one_pos64_msb [OF p(2,1)]
    by simp
qed

theorem pg_leftmost_one_pos64_paths_agree_witness:
  "(1000 :: uint64_t) \<noteq> 0 \<and>
   pg_leftmost_one_pos64_clzl 1000 = Some 9 \<and> pg_leftmost_one_pos64_clzll 1000 = Some 9 \<and>
   pg_leftmost_one_pos64_table 1000 = Some 9 \<and>
   \<lfloor>log 2 (real (unat (1000 :: uint64_t)))\<rfloor> = 9"
proof -
  have nz: "(1000 :: uint64_t) \<noteq> 0"
    by simp
  obtain p where p: "pg_leftmost_one_pos64_clzl 1000 = Some p"
      "pg_leftmost_one_pos64_clzll 1000 = Some p" "pg_leftmost_one_pos64_table 1000 = Some p"
      "p = \<lfloor>log 2 (real (unat (1000 :: uint64_t)))\<rfloor>"
    using pg_leftmost_one_pos64_paths_agree [OF nz, of table_build] by blast
  have "msb_at (unat (1000 :: uint64_t)) 9"
    by (simp add: msb_at_def)
  then have "pg_leftmost_one_pos64_table 1000 = Some (int 9)"
    by (rule pg_leftmost_one_pos64_table_msb)
  then have "p = 9"
    using p(3) by simp
  then show ?thesis
    using p nz by simp
qed

text \<open>
  C6. For every unsigned 64-bit value, \<^verbatim>\<open>pg_ulltoa_n(v, buffer)\<close> stores only to
  \<open>buffer[0..len)\<close>, \<open>len\<close> its returned length: to no index at or above \<open>len\<close> and to no
  negative index. For every signed 64-bit value, \<^verbatim>\<open>pg_lltoa(v, buffer)\<close> stores only to
  \<open>buffer[0..len]\<close>, the byte at \<open>len\<close> being the terminator and the only zero byte
  among them. Every other byte of the heap is unchanged.
\<close>

theorem formatting_frame:
  "(\<exists>len h' ws. pg_ulltoa_n cfg v a h = Some (int len, h') \<and>
       stores h' = ws @ stores h \<and> set ws = {a ..< a + int len} \<and>
       (\<forall>p. p < a \<or> a + int len \<le> p \<longrightarrow> bytes h' p = bytes h p)) \<and>
   (\<exists>len h' ws. pg_lltoa cfg w a h = Some (int len, h') \<and>
       stores h' = ws @ stores h \<and> set ws = {a .. a + int len} \<and>
       bytes h' (a + int len) = CHR 0x00 \<and>
       CHR 0x00 \<notin> set (read_buf h' a len) \<and>
       (\<forall>p. p < a \<or> a + int len < p \<longrightarrow> bytes h' p = bytes h p))"
proof
  show "\<exists>len h' ws. pg_ulltoa_n cfg v a h = Some (int len, h') \<and>
       stores h' = ws @ stores h \<and> set ws = {a ..< a + int len} \<and>
       (\<forall>p. p < a \<or> a + int len \<le> p \<longrightarrow> bytes h' p = bytes h p)"
    using pg_ulltoa_n_spec [of cfg v a h] by blast
next
  let ?t = "(if sint w < 0 then ''-'' else '''') @ decimal (nat \<bar>sint w\<bar>)"
  have nul: "CHR 0x00 \<notin> set ?t"
    by (simp add: decimal_no_NUL)
  from pg_lltoa_spec [of cfg w a h]
  obtain h' where h': "pg_lltoa cfg w a h = Some (int (length ?t), h') \<and>
      read_buf h' a (length ?t) = ?t \<and>
      bytes h' (a + int (length ?t)) = CHR 0x00 \<and>
      (\<forall>p. p < a \<or> a + int (length ?t) < p \<longrightarrow> bytes h' p = bytes h p) \<and>
      (\<exists>ws. stores h' = ws @ stores h \<and> length ws = length ?t + 1 \<and>
           set ws = {a .. a + int (length ?t)})" ..
  then obtain ws where ws: "stores h' = ws @ stores h" "set ws = {a .. a + int (length ?t)}"
    by blast
  have "pg_lltoa cfg w a h = Some (int (length ?t), h') \<and>
       stores h' = ws @ stores h \<and> set ws = {a .. a + int (length ?t)} \<and>
       bytes h' (a + int (length ?t)) = CHR 0x00 \<and>
       CHR 0x00 \<notin> set (read_buf h' a (length ?t)) \<and>
       (\<forall>p. p < a \<or> a + int (length ?t) < p \<longrightarrow> bytes h' p = bytes h p)"
    (is "?A \<and> ?B \<and> ?C \<and> ?D \<and> ?E \<and> ?F")
  proof (intro conjI)
    show ?A using h' by (rule conjunct1)
    show ?B by (rule ws(1))
    show ?C by (rule ws(2))
    show ?D using h' [THEN conjunct2, THEN conjunct2] by (rule conjunct1)
    have "read_buf h' a (length ?t) = ?t"
      using h' [THEN conjunct2] by (rule conjunct1)
    then show ?E using nul by metis
    show ?F using h' [THEN conjunct2, THEN conjunct2, THEN conjunct2] by (rule conjunct1)
  qed
  then show "\<exists>len h' ws. pg_lltoa cfg w a h = Some (int len, h') \<and>
       stores h' = ws @ stores h \<and> set ws = {a .. a + int len} \<and>
       bytes h' (a + int len) = CHR 0x00 \<and>
       CHR 0x00 \<notin> set (read_buf h' a len) \<and>
       (\<forall>p. p < a \<or> a + int len < p \<longrightarrow> bytes h' p = bytes h p)"
    by (intro exI)
qed

theorem formatting_frame_witness:
  "(\<exists>len h'. pg_ulltoa_n table_build 42 0 blank = Some (int len, h') \<and>
       bytes h' (- 1) = CHR ''x'' \<and> bytes h' (int len) = CHR ''x'') \<and>
   (\<exists>len h'. pg_lltoa table_build (- 42) 0 blank = Some (int len, h') \<and>
       bytes h' (- 1) = CHR ''x'' \<and> bytes h' (int len) = CHR 0x00 \<and>
       bytes h' (int len + 1) = CHR ''x'')"
proof -
  have b: "bytes blank p = CHR ''x''" for p
    by (simp add: blank_def)
  obtain l1 h1 where 1: "pg_ulltoa_n table_build 42 0 blank = Some (int l1, h1)"
      "\<forall>p. p < 0 \<or> 0 + int l1 \<le> p \<longrightarrow> bytes h1 p = bytes blank p"
    using formatting_frame [of table_build 42 0 blank] by blast
  obtain l2 h2 where 2: "pg_lltoa table_build (- 42) 0 blank = Some (int l2, h2)"
      "bytes h2 (0 + int l2) = CHR 0x00"
      "\<forall>p. p < 0 \<or> 0 + int l2 < p \<longrightarrow> bytes h2 p = bytes blank p"
    using formatting_frame [of table_build _ 0 blank "- 42"] by blast
  have "bytes h1 (- 1) = CHR ''x''" "bytes h1 (int l1) = CHR ''x''"
    using 1(2) b by simp_all
  moreover have "bytes h2 (- 1) = CHR ''x''" "bytes h2 (int l2 + 1) = CHR ''x''"
    using 2(3) b by simp_all
  ultimately show ?thesis
    using 1(1) 2(1,2) by auto
qed

text \<open>
  C7. The digit count is monotone. \<^verbatim>\<open>decimalLength64\<close> is \<^verbatim>\<open>static inline\<close> and its one
  call (line 130) comes after the \<^verbatim>\<open>value == 0\<close> return of lines 124-128, so it runs on
  nonzero values only; for zero the caller fixes the count at 1. For all unsigned 64-bit
  values \<open>v1 \<le> v2\<close>, zero included, the digit count \<^verbatim>\<open>pg_ulltoa_n\<close> works with and
  returns (\<^verbatim>\<open>decimalLength64(v)\<close> for \<open>v \<noteq> 0\<close>, 1 for \<open>v = 0\<close>) satisfies
  \<open>count(v1) \<le> count(v2)\<close>; and whenever \<open>1 \<le> v1\<close>, both calls of
  \<^verbatim>\<open>decimalLength64\<close> return and \<open>decimalLength64(v1) \<le> decimalLength64(v2)\<close>.
\<close>

theorem decimalLength64_mono:
  assumes "v1 \<le> v2"
  shows "(1 \<le> v1 \<longrightarrow>
            (\<exists>d1 d2. decimalLength64 cfg v1 = Some d1 \<and> decimalLength64 cfg v2 = Some d2 \<and>
                     d1 \<le> d2)) \<and>
         (\<exists>d1 d2 h1 h2.
            pg_ulltoa_n cfg v1 a1 g1 = Some (d1, h1) \<and>
            pg_ulltoa_n cfg v2 a2 g2 = Some (d2, h2) \<and> d1 \<le> d2 \<and>
            (if v1 = 0 then d1 = 1 else decimalLength64 cfg v1 = Some d1) \<and>
            (if v2 = 0 then d2 = 1 else decimalLength64 cfg v2 = Some d2))"
proof
  have le: "length (decimal (unat v1)) \<le> length (decimal (unat v2))"
    using assms by (intro length_decimal_mono) (simp add: word_le_nat_alt)
  show "1 \<le> v1 \<longrightarrow>
      (\<exists>d1 d2. decimalLength64 cfg v1 = Some d1 \<and> decimalLength64 cfg v2 = Some d2 \<and> d1 \<le> d2)"
  proof
    assume "1 \<le> v1"
    then have "v1 \<noteq> 0" "v2 \<noteq> 0"
      using assms by auto
    then show "\<exists>d1 d2. decimalLength64 cfg v1 = Some d1 \<and> decimalLength64 cfg v2 = Some d2 \<and>
        d1 \<le> d2"
      using le by (simp add: decimalLength64_decimal)
  qed
  obtain h1 where h1: "pg_ulltoa_n cfg v1 a1 g1 = Some (int (length (decimal (unat v1))), h1)"
    using pg_ulltoa_n_spec [of cfg v1 a1 g1] by blast
  obtain h2 where h2: "pg_ulltoa_n cfg v2 a2 g2 = Some (int (length (decimal (unat v2))), h2)"
    using pg_ulltoa_n_spec [of cfg v2 a2 g2] by blast
  have c: "if v = 0 then int (length (decimal (unat v))) = 1
      else decimalLength64 cfg v = Some (int (length (decimal (unat v))))" for v :: uint64_t
    by (simp add: decimalLength64_decimal decimal_less_10)
  show "\<exists>d1 d2 h1 h2.
      pg_ulltoa_n cfg v1 a1 g1 = Some (d1, h1) \<and>
      pg_ulltoa_n cfg v2 a2 g2 = Some (d2, h2) \<and> d1 \<le> d2 \<and>
      (if v1 = 0 then d1 = 1 else decimalLength64 cfg v1 = Some d1) \<and>
      (if v2 = 0 then d2 = 1 else decimalLength64 cfg v2 = Some d2)"
    using h1 h2 le c [of v1] c [of v2]
    by (intro exI [of _ "int (length (decimal (unat v1)))"]
        exI [of _ "int (length (decimal (unat v2)))"] exI [of _ h1] exI [of _ h2]) simp
qed

theorem decimalLength64_mono_witness:
  "(1::uint64_t) \<le> 99 \<and> (99::uint64_t) \<le> 100 \<and>
   (\<exists>d1 d2. decimalLength64 table_build 99 = Some d1 \<and>
            decimalLength64 table_build 100 = Some d2 \<and> d1 \<le> d2) \<and>
   (0::uint64_t) \<le> 5 \<and>
   (\<exists>d2 h1 h2. pg_ulltoa_n clz_build 0 0 blank = Some (1, h1) \<and>
            pg_ulltoa_n clz_build 5 0 blank = Some (d2, h2) \<and> 1 \<le> d2 \<and>
            decimalLength64 clz_build 5 = Some d2)"
proof -
  have le: "(1::uint64_t) \<le> 99" "(99::uint64_t) \<le> 100" "(0::uint64_t) \<le> 5"
    by simp_all
  have 1: "\<exists>d1 d2. decimalLength64 table_build 99 = Some d1 \<and>
      decimalLength64 table_build 100 = Some d2 \<and> d1 \<le> d2"
    using decimalLength64_mono [OF le(2), of table_build] le(1) by blast
  obtain d1 d2 h1 h2 where 2: "pg_ulltoa_n clz_build 0 0 blank = Some (d1, h1)"
      "pg_ulltoa_n clz_build 5 0 blank = Some (d2, h2)" "d1 \<le> d2"
      "if (0::uint64_t) = 0 then d1 = 1 else decimalLength64 clz_build 0 = Some d1"
      "if (5::uint64_t) = 0 then d2 = 1 else decimalLength64 clz_build 5 = Some d2"
    using decimalLength64_mono [OF le(3), of clz_build 0 blank 0 blank] by blast
  have "d1 = 1" "decimalLength64 clz_build 5 = Some d2"
    using 2(4,5) by simp_all
  then show ?thesis
    using le 1 2(1,2,3) by auto
qed

text \<open>
  C8. \<^verbatim>\<open>pg_ulltoa_n(0, buffer)\<close> performs the single store of \<open>'0'\<close> to \<open>buffer[0]\<close> and
  returns 1. The digit count is not computed on this path: \<^verbatim>\<open>decimalLength64(0)\<close>
  is undefined, and a call to it would make the whole call undefined.
\<close>

theorem pg_ulltoa_n_zero_case:
  "pg_ulltoa_n cfg 0 a h =
     Some (1, h\<lparr>bytes := (bytes h)(a := CHR ''0''), stores := a # stores h\<rparr>) \<and>
   decimalLength64 cfg 0 = None"
  by (simp add: pg_ulltoa_n_zero store_def decimalLength64_def decimalLength64_t_def
      pg_leftmost_one_pos64_zero)

theorem pg_ulltoa_n_zero_case_witness:
  "pg_ulltoa_n clz_build 0 7 blank =
     Some (1, \<lparr>bytes = (\<lambda>p. if p = 7 then CHR ''0'' else CHR ''x''), stores = [7]\<rparr>) \<and>
   decimalLength64 clz_build 0 = None"
proof -
  have "(\<lambda>p. CHR ''x'')(7 := CHR ''0'') = (\<lambda>p::int. if p = 7 then CHR ''0'' else CHR ''x'')"
    by auto
  then show ?thesis
    using pg_ulltoa_n_zero_case [of clz_build 7 blank] by (simp add: blank_def)
qed

text \<open>
  C9. The output of \<^verbatim>\<open>pg_ulltoa_n\<close> is canonical: for every unsigned 64-bit value \<open>v\<close>
  the bytes at \<open>buffer[0..len)\<close> are ASCII digits, they are the canonical decimal text of
  \<open>v\<close>, and the first byte is \<open>'0'\<close> only for \<open>v = 0\<close>: no leading zeros.
\<close>

theorem pg_ulltoa_n_canonical:
  "\<exists>len h'. pg_ulltoa_n cfg v a h = Some (int len, h') \<and> 1 \<le> len \<and>
       list_all is_digit (read_buf h' a len) \<and>
       read_buf h' a len = decimal (unat v) \<and>
       ((bytes h' a = CHR ''0'') = (v = 0))"
proof -
  let ?d = "decimal (unat v)"
  obtain h' where h': "pg_ulltoa_n cfg v a h = Some (int (length ?d), h')"
      "read_buf h' a (length ?d) = ?d"
    using pg_ulltoa_n_spec [of cfg v a h] by blast
  obtain k where k: "length ?d = Suc k"
    using decimal_nonempty [of "unat v"] by (cases ?d) auto
  have hd: "bytes h' a = hd ?d"
    using h'(2) unfolding k read_buf_Suc by (metis list.sel(1))
  have "(hd ?d = CHR ''0'') = (v = 0)"
  proof (cases "v = 0")
    case True
    then show ?thesis
      by (simp add: decimal_less_10 digit_char_numerals)
  next
    case False
    then have "0 < unat v"
      by (simp add: unat_gt_0)
    then show ?thesis
      using False hd_decimal by simp
  qed
  then have "(bytes h' a = CHR ''0'') = (v = 0)"
    by (simp only: hd)
  moreover have "list_all is_digit (read_buf h' a (length ?d))"
    unfolding h'(2) by (rule decimal_all_digits)
  moreover have "1 \<le> length ?d"
    by (simp add: k)
  ultimately show ?thesis
    using h' by blast
qed

theorem pg_ulltoa_n_canonical_witness:
  "\<exists>h'. pg_ulltoa_n table_build 1000 0 blank = Some (4, h') \<and> read_buf h' 0 4 = ''1000'' \<and>
       bytes h' 0 \<noteq> CHR ''0''"
proof -
  have d: "decimal (unat (1000 :: uint64_t)) = ''1000''"
    by (simp add: decimal.simps digit_char_numerals digit_char_Suc_0)
  obtain len h' where h': "pg_ulltoa_n table_build 1000 0 blank = Some (int len, h')"
      "read_buf h' 0 len = decimal (unat (1000 :: uint64_t))"
      "(bytes h' 0 = CHR ''0'') = ((1000 :: uint64_t) = 0)"
    using pg_ulltoa_n_canonical [of table_build 1000 0 blank] by blast
  have "length (read_buf h' 0 len) = len"
    by (simp add: read_buf_def)
  then have "len = 4"
    unfolding h'(2) d by simp
  then show ?thesis
    using h' d by simp
qed

text \<open>
  C10. The tables hold what the code reads them for, and the code reads them only there.
  For every \<open>n\<close> in \<open>[0, 99]\<close>, \<^verbatim>\<open>DIGIT_TABLE[2*n]\<close> is the ASCII character of the tens
  digit of \<open>n\<close> and \<^verbatim>\<open>DIGIT_TABLE[2*n+1]\<close> that of its units digit, so a \<^verbatim>\<open>memcpy\<close> of two
  bytes from offset \<open>2*n\<close> copies the two digits of \<open>n\<close>. For every byte \<open>b\<close> in
  \<open>[1, 255]\<close>, \<^verbatim>\<open>pg_leftmost_one_pos[b]\<close> is \<open>floor(log2 b)\<close>. The lookups of the code:
  \<^item> bit scan (line 81): for \<open>w \<noteq> 0\<close> the loop ends at a shift where the index
    \<open>(w >> shift) & 255\<close> lies in \<open>[1, 255]\<close>; the entry read is \<open>floor(log2 index)\<close> and
    \<open>shift + entry\<close>, the result, is \<open>floor(log2 w)\<close>;
  \<^item> formatting (lines 149-152, 169-170, 180, 188): every \<^verbatim>\<open>memcpy\<close> from
    \<^verbatim>\<open>DIGIT_TABLE\<close> is at an offset \<open>2*n\<close> where \<open>n\<close> is a two-digit group of the value,
    \<open>n < 100\<close>: in each loop iteration, in the 10000 block and in the 100 block by
    construction (\<open>n\<close> is a remainder \<open>mod 100\<close>), and in the last block because the value
    handed on to it is below 100 in every run of \<^verbatim>\<open>pg_ulltoa_n\<close>, which passes through
    the blocks without an undefined read.
\<close>

theorem tables_correct:
  "(\<forall>n<100. array_read DIGIT_TABLE (2 * n) = Some (digit_char (n div 10)) \<and>
            array_read DIGIT_TABLE (2 * n + 1) = Some (digit_char (n mod 10)) \<and>
            memcpy dst DIGIT_TABLE (2 * n) 2 h =
              Some (store (dst + 1) (digit_char (n mod 10))
                     (store dst (digit_char (n div 10)) h))) \<and>
   (\<forall>b. 1 \<le> b \<and> b \<le> 255 \<longrightarrow>
      (\<exists>p. array_read pg_leftmost_one_pos b = Some p \<and> uint p = \<lfloor>log 2 (real b)\<rfloor>)) \<and>
   (w \<noteq> 0 \<longrightarrow>
      (\<exists>shift p. pg_leftmost_one_pos64_loop w (64 - 8) = Some shift \<and>
         1 \<le> unat (drop_bit (nat shift) w AND 255) \<and>
         unat (drop_bit (nat shift) w AND 255) \<le> 255 \<and>
         array_read pg_leftmost_one_pos (unat (drop_bit (nat shift) w AND 255)) = Some p \<and>
         uint p = \<lfloor>log 2 (real (unat (drop_bit (nat shift) w AND 255)))\<rfloor> \<and>
         pg_leftmost_one_pos64_table w = Some (shift + uint p) \<and>
         shift + uint p = \<lfloor>log 2 (real (unat w))\<rfloor>)) \<and>
   (100000000 \<le> val \<longrightarrow>
      pg_ulltoa_n_loop a ol val i h =
        do { h \<leftarrow> memcpy (a + ol - i - 2) DIGIT_TABLE (2 * (unat val mod 100)) 2 h;
             h \<leftarrow> memcpy (a + ol - i - 4) DIGIT_TABLE (2 * (unat val div 10 ^ 2 mod 100)) 2 h;
             h \<leftarrow> memcpy (a + ol - i - 6) DIGIT_TABLE (2 * (unat val div 10 ^ 4 mod 100)) 2 h;
             h \<leftarrow> memcpy (a + ol - i - 8) DIGIT_TABLE (2 * (unat val div 10 ^ 6 mod 100)) 2 h;
             pg_ulltoa_n_loop a ol (val div 100000000) (i + 8) h }) \<and>
   (10000 \<le> value2 \<longrightarrow>
      pg_ulltoa_n_10000 a ol value2 i h =
        do { h \<leftarrow> memcpy (a + ol - i - 2) DIGIT_TABLE (2 * (unat value2 mod 100)) 2 h;
             h \<leftarrow> memcpy (a + ol - i - 4) DIGIT_TABLE (2 * (unat value2 div 10 ^ 2 mod 100)) 2 h;
             Some (value2 div 10000, i + 4, h) }) \<and>
   (100 \<le> value2 \<longrightarrow>
      pg_ulltoa_n_100 a ol value2 i h =
        do { h \<leftarrow> memcpy (a + ol - i - 2) DIGIT_TABLE (2 * (unat value2 mod 100)) 2 h;
             Some (value2 div 100, i + 2, h) }) \<and>
   (10 \<le> value2 \<and> value2 < 100 \<longrightarrow>
      pg_ulltoa_n_10 a ol value2 i h =
        memcpy (a + ol - i - 2) DIGIT_TABLE (2 * unat value2) 2 h) \<and>
   (v \<noteq> 0 \<longrightarrow>
      (\<exists>ol v1 i1 h1 v2 i2 h2 v3 i3 h3 h4.
         decimalLength64 cfg v = Some ol \<and>
         pg_ulltoa_n_loop a ol v 0 h = Some (v1, i1, h1) \<and> v1 < 100000000 \<and>
         pg_ulltoa_n_10000 a ol (ucast v1) i1 h1 = Some (v2, i2, h2) \<and> v2 < 10000 \<and>
         pg_ulltoa_n_100 a ol v2 i2 h2 = Some (v3, i3, h3) \<and> v3 < 100 \<and>
         pg_ulltoa_n_10 a ol v3 i3 h3 = Some h4 \<and>
         pg_ulltoa_n cfg v a h = Some (ol, h4)))"
proof (intro conjI allI impI)
  fix n :: nat
  assume n: "n < 100"
  show "array_read DIGIT_TABLE (2 * n) = Some (digit_char (n div 10))"
    using n by (rule DIGIT_TABLE_pair(1))
  show "array_read DIGIT_TABLE (2 * n + 1) = Some (digit_char (n mod 10))"
    using DIGIT_TABLE_pair(2) [OF n] by simp
  show "memcpy dst DIGIT_TABLE (2 * n) 2 h =
      Some (store (dst + 1) (digit_char (n mod 10)) (store dst (digit_char (n div 10)) h))"
    using n by (rule memcpy_DIGIT_TABLE_pair)
next
  fix b :: nat
  assume "1 \<le> b \<and> b \<le> 255"
  then have b: "1 \<le> b" "b < 256"
    by simp_all
  have "msb_at b (unat (pg_leftmost_one_pos ! b))"
    using pg_leftmost_one_pos_bounds [OF b] by (simp add: msb_at_def)
  then have "\<lfloor>log 2 (real b)\<rfloor> = int (unat (pg_leftmost_one_pos ! b))"
    by (rule msb_at_floor_log)
  then show "\<exists>p. array_read pg_leftmost_one_pos b = Some p \<and> uint p = \<lfloor>log 2 (real b)\<rfloor>"
    using b(2) by (simp add: array_read_def length_pg_leftmost_one_pos)
next
  assume "w \<noteq> 0"
  then show "\<exists>shift p. pg_leftmost_one_pos64_loop w (64 - 8) = Some shift \<and>
         1 \<le> unat (drop_bit (nat shift) w AND 255) \<and>
         unat (drop_bit (nat shift) w AND 255) \<le> 255 \<and>
         array_read pg_leftmost_one_pos (unat (drop_bit (nat shift) w AND 255)) = Some p \<and>
         uint p = \<lfloor>log 2 (real (unat (drop_bit (nat shift) w AND 255)))\<rfloor> \<and>
         pg_leftmost_one_pos64_table w = Some (shift + uint p) \<and>
         shift + uint p = \<lfloor>log 2 (real (unat w))\<rfloor>"
    by (rule pg_leftmost_one_pos64_table_lookup)
next
  assume "100000000 \<le> val"
  then show "pg_ulltoa_n_loop a ol val i h =
        do { h \<leftarrow> memcpy (a + ol - i - 2) DIGIT_TABLE (2 * (unat val mod 100)) 2 h;
             h \<leftarrow> memcpy (a + ol - i - 4) DIGIT_TABLE (2 * (unat val div 10 ^ 2 mod 100)) 2 h;
             h \<leftarrow> memcpy (a + ol - i - 6) DIGIT_TABLE (2 * (unat val div 10 ^ 4 mod 100)) 2 h;
             h \<leftarrow> memcpy (a + ol - i - 8) DIGIT_TABLE (2 * (unat val div 10 ^ 6 mod 100)) 2 h;
             pg_ulltoa_n_loop a ol (val div 100000000) (i + 8) h }"
    by (rule pg_ulltoa_n_loop_step)
next
  assume "10000 \<le> value2"
  then show "pg_ulltoa_n_10000 a ol value2 i h =
        do { h \<leftarrow> memcpy (a + ol - i - 2) DIGIT_TABLE (2 * (unat value2 mod 100)) 2 h;
             h \<leftarrow> memcpy (a + ol - i - 4) DIGIT_TABLE (2 * (unat value2 div 10 ^ 2 mod 100)) 2 h;
             Some (value2 div 10000, i + 4, h) }"
    by (rule pg_ulltoa_n_10000_step)
next
  assume "100 \<le> value2"
  then show "pg_ulltoa_n_100 a ol value2 i h =
        do { h \<leftarrow> memcpy (a + ol - i - 2) DIGIT_TABLE (2 * (unat value2 mod 100)) 2 h;
             Some (value2 div 100, i + 2, h) }"
    by (rule pg_ulltoa_n_100_step)
next
  assume "10 \<le> value2 \<and> value2 < 100"
  then show "pg_ulltoa_n_10 a ol value2 i h =
        memcpy (a + ol - i - 2) DIGIT_TABLE (2 * unat value2) 2 h"
    by (intro pg_ulltoa_n_10_step) simp_all
next
  assume "v \<noteq> 0"
  then show "\<exists>ol v1 i1 h1 v2 i2 h2 v3 i3 h3 h4.
         decimalLength64 cfg v = Some ol \<and>
         pg_ulltoa_n_loop a ol v 0 h = Some (v1, i1, h1) \<and> v1 < 100000000 \<and>
         pg_ulltoa_n_10000 a ol (ucast v1) i1 h1 = Some (v2, i2, h2) \<and> v2 < 10000 \<and>
         pg_ulltoa_n_100 a ol v2 i2 h2 = Some (v3, i3, h3) \<and> v3 < 100 \<and>
         pg_ulltoa_n_10 a ol v3 i3 h3 = Some h4 \<and>
         pg_ulltoa_n cfg v a h = Some (ol, h4)"
    by (rule pg_ulltoa_n_chain)
qed

theorem tables_correct_witness:
  "array_read DIGIT_TABLE 84 = Some CHR ''4'' \<and> array_read DIGIT_TABLE 85 = Some CHR ''2'' \<and>
   memcpy 0 DIGIT_TABLE 84 2 blank = Some (store 1 CHR ''2'' (store 0 CHR ''4'' blank)) \<and>
   array_read pg_leftmost_one_pos 200 = Some 7 \<and> \<lfloor>log 2 (real 200)\<rfloor> = 7 \<and>
   (1000 :: uint64_t) \<noteq> 0 \<and> pg_leftmost_one_pos64_loop 1000 (64 - 8) = Some 8 \<and>
   unat (drop_bit (nat 8) (1000 :: uint64_t) AND 255) = 3 \<and>
   array_read pg_leftmost_one_pos 3 = Some 1 \<and>
   pg_leftmost_one_pos64_table 1000 = Some 9 \<and> \<lfloor>log 2 (real (unat (1000 :: uint64_t)))\<rfloor> = 9 \<and>
   (100000000 :: uint64_t) \<le> 12345678901 \<and>
   pg_ulltoa_n_loop 0 11 12345678901 0 blank =
     do { h \<leftarrow> memcpy 9 DIGIT_TABLE 2 2 blank;
          h \<leftarrow> memcpy 7 DIGIT_TABLE 178 2 h;
          h \<leftarrow> memcpy 5 DIGIT_TABLE 134 2 h;
          h \<leftarrow> memcpy 3 DIGIT_TABLE 90 2 h;
          pg_ulltoa_n_loop 0 11 123 8 h } \<and>
   (10000 :: uint32_t) \<le> 123456 \<and>
   pg_ulltoa_n_10000 0 6 123456 0 blank =
     do { h \<leftarrow> memcpy 4 DIGIT_TABLE 112 2 blank;
          h \<leftarrow> memcpy 2 DIGIT_TABLE 68 2 h;
          Some (12, 4, h) } \<and>
   (100 :: uint32_t) \<le> 1234 \<and>
   pg_ulltoa_n_100 0 4 1234 0 blank =
     do { h \<leftarrow> memcpy 2 DIGIT_TABLE 68 2 blank; Some (12, 2, h) } \<and>
   (10 :: uint32_t) \<le> 42 \<and> (42 :: uint32_t) < 100 \<and>
   pg_ulltoa_n_10 0 2 42 0 blank = memcpy 0 DIGIT_TABLE 84 2 blank \<and>
   (42 :: uint64_t) \<noteq> 0 \<and>
   (\<exists>ol v1 i1 h1 v2 i2 h2 v3 i3 h3 h4.
      decimalLength64 table_build 42 = Some ol \<and>
      pg_ulltoa_n_loop 0 ol 42 0 blank = Some (v1, i1, h1) \<and> v1 < 100000000 \<and>
      pg_ulltoa_n_10000 0 ol (ucast v1) i1 h1 = Some (v2, i2, h2) \<and> v2 < 10000 \<and>
      pg_ulltoa_n_100 0 ol v2 i2 h2 = Some (v3, i3, h3) \<and> v3 < 100 \<and>
      pg_ulltoa_n_10 0 ol v3 i3 h3 = Some h4 \<and>
      pg_ulltoa_n table_build 42 0 blank = Some (ol, h4))"
proof -
  note T = tables_correct [where dst = 0 and h = blank and w = 1000 and val = 12345678901
      and a = 0 and i = 0 and cfg = table_build and v = 42]
  have "(42::nat) < 100"
    by simp
  then have "array_read DIGIT_TABLE (2 * 42) = Some (digit_char (42 div 10)) \<and>
      array_read DIGIT_TABLE (2 * 42 + 1) = Some (digit_char (42 mod 10)) \<and>
      memcpy 0 DIGIT_TABLE (2 * 42) 2 blank =
        Some (store (0 + 1) (digit_char (42 mod 10)) (store 0 (digit_char (42 div 10)) blank))"
    by (rule T [THEN conjunct1, rule_format])
  then have 1: "array_read DIGIT_TABLE 84 = Some CHR ''4'' \<and>
      array_read DIGIT_TABLE 85 = Some CHR ''2'' \<and>
      memcpy 0 DIGIT_TABLE 84 2 blank = Some (store 1 CHR ''2'' (store 0 CHR ''4'' blank))"
    by (simp add: digit_char_numerals)
  have "(1::nat) \<le> 200 \<and> (200::nat) \<le> 255"
    by simp
  then have "\<exists>p. array_read pg_leftmost_one_pos 200 = Some p \<and> uint p = \<lfloor>log 2 (real 200)\<rfloor>"
    by (rule T [THEN conjunct2, THEN conjunct1, rule_format])
  then obtain p where p: "array_read pg_leftmost_one_pos 200 = Some p"
      "uint p = \<lfloor>log 2 (real 200)\<rfloor>"
    by blast
  have "array_read pg_leftmost_one_pos 200 = Some 7"
    by (simp add: array_read_def pg_leftmost_one_pos_def)
  then have "p = 7"
    using p(1) by simp
  then have 2: "array_read pg_leftmost_one_pos 200 = Some 7 \<and> \<lfloor>log 2 (real 200)\<rfloor> = 7"
    using p by simp
  have nz: "(1000 :: uint64_t) \<noteq> 0"
    by simp
  obtain shift q where s: "pg_leftmost_one_pos64_loop 1000 (64 - 8) = Some shift"
      "array_read pg_leftmost_one_pos (unat (drop_bit (nat shift) (1000 :: uint64_t) AND 255)) = Some q"
      "pg_leftmost_one_pos64_table 1000 = Some (shift + uint q)"
      "shift + uint q = \<lfloor>log 2 (real (unat (1000 :: uint64_t)))\<rfloor>"
    using T [THEN conjunct2, THEN conjunct2, THEN conjunct1, rule_format, OF nz] by blast
  have l8: "pg_leftmost_one_pos64_loop 1000 (64 - 8) = Some 8"
    by (simp add: drop_bit_eq_div)
  then have sh: "shift = 8"
    using s(1) by simp
  have ix: "unat (drop_bit (nat 8) (1000 :: uint64_t) AND 255) = 3"
    by (simp add: drop_bit_eq_div)
  have "array_read pg_leftmost_one_pos 3 = Some 1"
    by (simp add: array_read_def pg_leftmost_one_pos_def)
  then have "q = 1"
    using s(2) unfolding sh ix by simp
  then have 3: "pg_leftmost_one_pos64_loop 1000 (64 - 8) = Some 8 \<and>
      unat (drop_bit (nat 8) (1000 :: uint64_t) AND 255) = 3 \<and>
      array_read pg_leftmost_one_pos 3 = Some 1 \<and>
      pg_leftmost_one_pos64_table 1000 = Some 9 \<and>
      \<lfloor>log 2 (real (unat (1000 :: uint64_t)))\<rfloor> = 9"
    using s l8 ix unfolding sh by simp
  have g4: "(100000000 :: uint64_t) \<le> 12345678901"
    by simp
  have d4: "(12345678901 :: uint64_t) div 100000000 = 123"
    by simp
  have "pg_ulltoa_n_loop 0 11 12345678901 0 blank =
      do { h \<leftarrow> memcpy (0 + 11 - 0 - 2) DIGIT_TABLE (2 * (unat (12345678901 :: uint64_t) mod 100)) 2 blank;
           h \<leftarrow> memcpy (0 + 11 - 0 - 4) DIGIT_TABLE (2 * (unat (12345678901 :: uint64_t) div 10 ^ 2 mod 100)) 2 h;
           h \<leftarrow> memcpy (0 + 11 - 0 - 6) DIGIT_TABLE (2 * (unat (12345678901 :: uint64_t) div 10 ^ 4 mod 100)) 2 h;
           h \<leftarrow> memcpy (0 + 11 - 0 - 8) DIGIT_TABLE (2 * (unat (12345678901 :: uint64_t) div 10 ^ 6 mod 100)) 2 h;
           pg_ulltoa_n_loop 0 11 (12345678901 div 100000000) (0 + 8) h }"
    using g4 by (rule T [where ol = 11, THEN conjunct2, THEN conjunct2, THEN conjunct2,
          THEN conjunct1, rule_format])
  also have "\<dots> = do { h \<leftarrow> memcpy 9 DIGIT_TABLE 2 2 blank;
          h \<leftarrow> memcpy 7 DIGIT_TABLE 178 2 h;
          h \<leftarrow> memcpy 5 DIGIT_TABLE 134 2 h;
          h \<leftarrow> memcpy 3 DIGIT_TABLE 90 2 h;
          pg_ulltoa_n_loop 0 11 123 8 h }"
    unfolding d4 by (simp del: pg_ulltoa_n_loop.simps)
  finally have 4: "pg_ulltoa_n_loop 0 11 12345678901 0 blank =
     do { h \<leftarrow> memcpy 9 DIGIT_TABLE 2 2 blank;
          h \<leftarrow> memcpy 7 DIGIT_TABLE 178 2 h;
          h \<leftarrow> memcpy 5 DIGIT_TABLE 134 2 h;
          h \<leftarrow> memcpy 3 DIGIT_TABLE 90 2 h;
          pg_ulltoa_n_loop 0 11 123 8 h }" .
  have g5: "(10000 :: uint32_t) \<le> 123456"
    by simp
  have "pg_ulltoa_n_10000 0 6 123456 0 blank =
      do { h \<leftarrow> memcpy (0 + 6 - 0 - 2) DIGIT_TABLE (2 * (unat (123456 :: uint32_t) mod 100)) 2 blank;
           h \<leftarrow> memcpy (0 + 6 - 0 - 4) DIGIT_TABLE (2 * (unat (123456 :: uint32_t) div 10 ^ 2 mod 100)) 2 h;
           Some (123456 div 10000, 0 + 4, h) }"
    using g5 by (rule T [where ol = 6 and ?value2.0 = 123456, THEN conjunct2, THEN conjunct2,
          THEN conjunct2, THEN conjunct2, THEN conjunct1, rule_format])
  then have 5: "pg_ulltoa_n_10000 0 6 123456 0 blank =
     do { h \<leftarrow> memcpy 4 DIGIT_TABLE 112 2 blank;
          h \<leftarrow> memcpy 2 DIGIT_TABLE 68 2 h;
          Some (12, 4, h) }"
    by simp
  have g6: "(100 :: uint32_t) \<le> 1234"
    by simp
  have "pg_ulltoa_n_100 0 4 1234 0 blank =
      do { h \<leftarrow> memcpy (0 + 4 - 0 - 2) DIGIT_TABLE (2 * (unat (1234 :: uint32_t) mod 100)) 2 blank;
           Some (1234 div 100, 0 + 2, h) }"
    using g6 by (rule T [where ol = 4 and ?value2.0 = 1234, THEN conjunct2, THEN conjunct2,
          THEN conjunct2, THEN conjunct2, THEN conjunct2, THEN conjunct1, rule_format])
  then have 6: "pg_ulltoa_n_100 0 4 1234 0 blank =
     do { h \<leftarrow> memcpy 2 DIGIT_TABLE 68 2 blank; Some (12, 2, h) }"
    by simp
  have g7: "(10 :: uint32_t) \<le> 42 \<and> (42 :: uint32_t) < 100"
    by simp
  have "pg_ulltoa_n_10 0 2 42 0 blank =
      memcpy (0 + 2 - 0 - 2) DIGIT_TABLE (2 * unat (42 :: uint32_t)) 2 blank"
    using g7 by (rule T [where ol = 2 and ?value2.0 = 42, THEN conjunct2, THEN conjunct2,
          THEN conjunct2, THEN conjunct2, THEN conjunct2, THEN conjunct2, THEN conjunct1,
          rule_format])
  then have 7: "pg_ulltoa_n_10 0 2 42 0 blank = memcpy 0 DIGIT_TABLE 84 2 blank"
    by simp
  have g8: "(42 :: uint64_t) \<noteq> 0"
    by simp
  have 8: "\<exists>ol v1 i1 h1 v2 i2 h2 v3 i3 h3 h4.
      decimalLength64 table_build 42 = Some ol \<and>
      pg_ulltoa_n_loop 0 ol 42 0 blank = Some (v1, i1, h1) \<and> v1 < 100000000 \<and>
      pg_ulltoa_n_10000 0 ol (ucast v1) i1 h1 = Some (v2, i2, h2) \<and> v2 < 10000 \<and>
      pg_ulltoa_n_100 0 ol v2 i2 h2 = Some (v3, i3, h3) \<and> v3 < 100 \<and>
      pg_ulltoa_n_10 0 ol v3 i3 h3 = Some h4 \<and>
      pg_ulltoa_n table_build 42 0 blank = Some (ol, h4)"
    using g8 by (rule T [THEN conjunct2, THEN conjunct2, THEN conjunct2, THEN conjunct2,
          THEN conjunct2, THEN conjunct2, THEN conjunct2, rule_format])
  show ?thesis
    using 1 2 nz 3 g4 4 g5 5 g6 6 g7 7 g8 8 by (intro conjI) (simp_all only: simp_thms)
qed

end
